theory Spec2Isabelle
  imports Main "HOL-Library.Word"
begin

unbundle bit_operations_syntax

section \<open>Data model (ringbuffer.h)\<close>

text \<open>
  The C types of the source on an LP64 platform (the rounding routine shifts by 32, so
  \<^verbatim>\<open>unsigned long\<close> has 64 bits): \<^verbatim>\<open>unsigned long\<close> and \<^verbatim>\<open>long\<close> are both
  64-bit words; the unsigned reading is \<open>unat\<close> and the order \<open>\<le>\<close>, the signed reading
  is \<open>sint\<close>. A conversion between the two keeps the bits. \<^verbatim>\<open>unsigned char\<close> is an
  8-bit word. The transfer routines are modelled as ringbuffer.c defines them, with the
  amount a \<^verbatim>\<open>long\<close> (the prototypes of ringbuffer.h say \<^verbatim>\<open>unsigned long\<close>).
\<close>

type_synonym byte = "8 word"
type_synonym ulong = "64 word"
type_synonym long = "64 word"

text \<open>
  \<^verbatim>\<open>struct ringbuffer\<close>. The field \<^verbatim>\<open>size\<close> is called \<open>size_rb\<close> here, and the
  storage area the pointer \<^verbatim>\<open>storage\<close> refers to is the list of its bytes.
\<close>

record ringbuffer =
  size_rb :: ulong
  read_offset :: ulong
  write_offset :: ulong
  storage :: "byte list"

text \<open>
  The values of \<^verbatim>\<open>errno\<close> the source names, and any other one.
\<close>

datatype errno = EINVAL | ENOMEM | EAGAIN | EWOULDBLOCK | EOTHER nat

text \<open>
  A call fails either by returning \<^verbatim>\<open>-1\<close> with \<^verbatim>\<open>errno\<close> set (\<open>Error\<close>), or, in the
  model only, by a \<^verbatim>\<open>memcpy\<close> or \<^verbatim>\<open>memset\<close> that leaves the memory it was given, which
  is undefined behaviour in C (\<open>Undefined\<close>).
\<close>

datatype failure = Error errno | Undefined

section \<open>Memory primitives\<close>

text \<open>
  \<^verbatim>\<open>memcpy(dst + d, src + s, n)\<close> on the byte lists behind the two pointers. Outside
  either region the C call is undefined; the model returns \<open>None\<close>.
\<close>

definition memcpy :: "byte list \<Rightarrow> nat \<Rightarrow> byte list \<Rightarrow> nat \<Rightarrow> nat \<Rightarrow> byte list option" where
  "memcpy dst d src s n =
     (if d + n \<le> length dst \<and> s + n \<le> length src
      then Some (take d dst @ take n (drop s src) @ drop (d + n) dst)
      else None)"

text \<open>\<^verbatim>\<open>memset(dst, c, n)\<close>.\<close>

definition memset :: "byte list \<Rightarrow> byte \<Rightarrow> nat \<Rightarrow> byte list option" where
  "memset dst c n =
     (if n \<le> length dst then Some (replicate n c @ drop n dst) else None)"

section \<open>Creation\<close>

text \<open>\<^verbatim>\<open>next_power_of_two\<close>, lines 11 to 22.\<close>

definition next_power_of_two :: "ulong \<Rightarrow> ulong" where
  "next_power_of_two sz =
     (let s0 = sz - 1;
          s1 = s0 OR drop_bit 1 s0;
          s2 = s1 OR drop_bit 2 s1;
          s3 = s2 OR drop_bit 4 s2;
          s4 = s3 OR drop_bit 8 s3;
          s5 = s4 OR drop_bit 16 s4;
          s6 = s5 OR drop_bit 32 s5
      in s6 + 1)"

text \<open>
  Lines 13 to 18 on their own: every bit below the highest set bit is set as well.
\<close>

definition smear :: "ulong \<Rightarrow> ulong" where
  "smear x =
     (let s1 = x OR drop_bit 1 x;
          s2 = s1 OR drop_bit 2 s1;
          s3 = s2 OR drop_bit 4 s2;
          s4 = s3 OR drop_bit 8 s3;
          s5 = s4 OR drop_bit 16 s4
      in s5 OR drop_bit 32 s5)"

text \<open>
  \<^verbatim>\<open>malloc\<close> is the environment's. The allocator says whether the control block can be
  had and which values its two offset fields hold (the source does not initialise them),
  and for which sizes a storage area can be had and which bytes it holds.
\<close>

record allocator =
  ctl_ok :: bool
  junk_read :: ulong
  junk_write :: ulong
  mem_ok :: "nat \<Rightarrow> bool"
  junk :: "nat \<Rightarrow> byte"

definition malloc :: "allocator \<Rightarrow> nat \<Rightarrow> byte list option" where
  "malloc h n = (if mem_ok h n then Some (map (junk h) [0..<n]) else None)"

text \<open>
  \<^verbatim>\<open>ringbuffer_create\<close>, lines 34 to 50. The second component is what \<^verbatim>\<open>*rb\<close> points
  to afterwards. When the storage cannot be had the control block stays behind with its
  size set and a null storage pointer (the empty list).
\<close>

definition ringbuffer_create :: "allocator \<Rightarrow> ulong \<Rightarrow> (failure + unit) \<times> ringbuffer option" where
  "ringbuffer_create h sz =
     (if \<not> ctl_ok h then (Inl (Error ENOMEM), None)
      else
        let sz' = next_power_of_two sz;
            rb = \<lparr>size_rb = sz', read_offset = junk_read h, write_offset = junk_write h,
                  storage = []\<rparr>
        in (case malloc h (unat sz') of
              None \<Rightarrow> (Inl (Error ENOMEM), Some rb)
            | Some bs \<Rightarrow> (Inr (), Some (rb\<lparr>storage := bs\<rparr>))))"

section \<open>Flush and the two counts\<close>

text \<open>\<^verbatim>\<open>ringbuffer_flush\<close>, lines 81 to 93.\<close>

definition ringbuffer_flush :: "ringbuffer option \<Rightarrow> byte \<Rightarrow> (failure + unit) \<times> ringbuffer option" where
  "ringbuffer_flush p fill =
     (case p of
        None \<Rightarrow> (Inl (Error EINVAL), None)
      | Some rb \<Rightarrow>
          (case memset (storage rb) fill (unat (size_rb rb)) of
             None \<Rightarrow> (Inl Undefined, Some rb)
           | Some st \<Rightarrow>
               (Inr (), Some (rb\<lparr>storage := st, read_offset := 0, write_offset := 0\<rparr>))))"

text \<open>
  The body of \<^verbatim>\<open>ringbuffer_fill_count\<close> after its null check, lines 104 and 111 to 117:
  what the call returns inside the transfer routines, which have checked the pointer.
\<close>

definition fill_count :: "ringbuffer \<Rightarrow> long" where
  "fill_count rb =
     (if write_offset rb \<ge> read_offset rb then write_offset rb - read_offset rb
      else if write_offset rb < read_offset rb
        then write_offset rb + size_rb rb - read_offset rb
      else 0)"

definition ringbuffer_fill_count :: "ringbuffer option \<Rightarrow> failure + long" where
  "ringbuffer_fill_count p =
     (case p of None \<Rightarrow> Inl (Error EINVAL) | Some rb \<Rightarrow> Inr (fill_count rb))"

text \<open>\<^verbatim>\<open>ringbuffer_free_count\<close>, lines 129 to 136, in the same two layers.\<close>

definition free_count :: "ringbuffer \<Rightarrow> long" where
  "free_count rb = size_rb rb - fill_count rb"

definition ringbuffer_free_count :: "ringbuffer option \<Rightarrow> failure + long" where
  "ringbuffer_free_count p =
     (case p of None \<Rightarrow> Inl (Error EINVAL) | Some rb \<Rightarrow> Inr (free_count rb))"

section \<open>Memory transfers\<close>

text \<open>
  Lines 168 to 179 of \<^verbatim>\<open>ringbuffer_write_memory\<close>: the copy out of the storage into
  the caller's memory \<open>ptr\<close> (\<open>None\<close> is the null pointer), for the amount already
  clamped. The outer \<open>None\<close> is undefined behaviour in a \<^verbatim>\<open>memcpy\<close>.
\<close>

definition copy_out :: "ringbuffer \<Rightarrow> byte list option \<Rightarrow> long \<Rightarrow> byte list option option" where
  "copy_out rb ptr amount =
     (case ptr of
        None \<Rightarrow> Some None
      | Some buffer \<Rightarrow>
          let idx = read_offset rb;
              end = (read_offset rb + amount) AND (size_rb rb - 1);
              max = size_rb rb
          in if idx < end then
               map_option Some (memcpy buffer 0 (storage rb) (unat idx) (unat (end - idx)))
             else if idx > end then
               (case memcpy buffer 0 (storage rb) (unat idx) (unat (max - idx)) of
                  None \<Rightarrow> None
                | Some b1 \<Rightarrow>
                    map_option Some (memcpy b1 (unat (max - idx)) (storage rb) 0 (unat end)))
             else Some (Some buffer))"

text \<open>
  \<^verbatim>\<open>ringbuffer_write_memory\<close>, lines 150 to 185 (the spec's ReadInto): the result, the
  buffer afterwards and the caller's memory afterwards. The comparisons of \<open>amount\<close> are
  between \<^verbatim>\<open>long\<close> values, hence signed.
\<close>

definition ringbuffer_write_memory ::
  "ringbuffer option \<Rightarrow> byte list option \<Rightarrow> long
     \<Rightarrow> (failure + long) \<times> ringbuffer option \<times> byte list option" where
  "ringbuffer_write_memory p ptr amount =
     (case p of
        None \<Rightarrow> (Inl (Error EINVAL), None, ptr)
      | Some rb \<Rightarrow>
          if sint amount > sint (size_rb rb) then (Inl (Error ENOMEM), Some rb, ptr)
          else
            let amount' = (if sint amount > sint (fill_count rb) then fill_count rb else amount)
            in (case copy_out rb ptr amount' of
                  None \<Rightarrow> (Inl Undefined, Some rb, ptr)
                | Some ptr' \<Rightarrow>
                    (Inr amount',
                     Some (rb\<lparr>read_offset := (read_offset rb + amount') AND (size_rb rb - 1)\<rparr>),
                     ptr')))"

text \<open>
  Lines 218 to 229 of \<^verbatim>\<open>ringbuffer_read_memory\<close>: the copy from the caller's memory
  into the storage; the result is the storage afterwards.
\<close>

definition copy_in :: "ringbuffer \<Rightarrow> byte list option \<Rightarrow> long \<Rightarrow> byte list option" where
  "copy_in rb ptr amount =
     (case ptr of
        None \<Rightarrow> Some (storage rb)
      | Some buffer \<Rightarrow>
          let idx = write_offset rb;
              end = (write_offset rb + amount) AND (size_rb rb - 1);
              max = size_rb rb
          in if idx < end then
               memcpy (storage rb) (unat idx) buffer 0 (unat (end - idx))
             else if idx > end then
               (case memcpy (storage rb) (unat idx) buffer 0 (unat (max - idx)) of
                  None \<Rightarrow> None
                | Some st \<Rightarrow> memcpy st 0 buffer (unat (max - idx)) (unat end))
             else Some (storage rb))"

text \<open>
  \<^verbatim>\<open>ringbuffer_read_memory\<close>, lines 200 to 235 (the spec's WriteFrom): the result and
  the buffer afterwards.
\<close>

definition ringbuffer_read_memory ::
  "ringbuffer option \<Rightarrow> byte list option \<Rightarrow> long \<Rightarrow> (failure + long) \<times> ringbuffer option" where
  "ringbuffer_read_memory p ptr amount =
     (case p of
        None \<Rightarrow> (Inl (Error EINVAL), None)
      | Some rb \<Rightarrow>
          if sint amount > sint (size_rb rb) then (Inl (Error ENOMEM), Some rb)
          else
            let amount' = (if sint amount > sint (free_count rb) then free_count rb else amount)
            in (case copy_in rb ptr amount' of
                  None \<Rightarrow> (Inl Undefined, Some rb)
                | Some st \<Rightarrow>
                    (Inr amount',
                     Some (rb\<lparr>storage := st,
                              write_offset := (write_offset rb + amount') AND (size_rb rb - 1)\<rparr>))))"

section \<open>Descriptor transfers\<close>

text \<open>
  An entry of the \<^verbatim>\<open>iovec\<close> array: \<^verbatim>\<open>iov_base\<close> as an index into the storage, and
  \<^verbatim>\<open>iov_len\<close>. The list holds the first \<^verbatim>\<open>count\<close> entries.
\<close>

type_synonym iovec = "nat \<times> nat"

text \<open>Lines 266 to 280, and 326 to 340: the vector for a span that starts at \<open>off\<close>.\<close>

definition span_iov :: "ringbuffer \<Rightarrow> ulong \<Rightarrow> long \<Rightarrow> iovec list" where
  "span_iov rb off amount =
     (let idx = off;
          end = (off + amount) AND (size_rb rb - 1);
          max = size_rb rb
      in if idx < end then [(unat idx, unat (end - idx))]
         else if idx > end then [(unat idx, unat (max - idx)), (0, unat end)]
         else [])"

text \<open>Lines 262 to 280 of \<^verbatim>\<open>ringbuffer_write_fd\<close>: the clamp and the vector.\<close>

definition write_fd_iov :: "ringbuffer \<Rightarrow> long \<Rightarrow> iovec list" where
  "write_fd_iov rb amount =
     (let amount' = (if sint amount > sint (free_count rb) then free_count rb else amount)
      in span_iov rb (read_offset rb) amount')"

text \<open>Lines 322 to 340 of \<^verbatim>\<open>ringbuffer_read_fd\<close>.\<close>

definition read_fd_iov :: "ringbuffer \<Rightarrow> long \<Rightarrow> iovec list" where
  "read_fd_iov rb amount =
     (let amount' = (if sint amount > sint (fill_count rb) then fill_count rb else amount)
      in span_iov rb (write_offset rb) amount')"

text \<open>
  \<^verbatim>\<open>writev\<close> is the environment's: given the descriptor and the bytes of each segment it
  answers with its return value (a \<^verbatim>\<open>ssize_t\<close>) and the value of \<^verbatim>\<open>errno\<close> after the
  call. \<^verbatim>\<open>readv\<close> is given the length of each segment and answers with the bytes it has
  stored as well.
\<close>

type_synonym writev_t = "int \<Rightarrow> byte list list \<Rightarrow> long \<times> errno"
type_synonym readv_t = "int \<Rightarrow> nat list \<Rightarrow> long \<times> errno \<times> byte list"

definition gather :: "byte list \<Rightarrow> iovec list \<Rightarrow> byte list list" where
  "gather st iov = map (\<lambda>(b, l). take l (drop b st)) iov"

text \<open>
  \<^verbatim>\<open>ringbuffer_write_fd\<close>, lines 247 to 295 (the spec's DrainToDescriptor). The variable
  \<^verbatim>\<open>bytes\<close> is an \<^verbatim>\<open>unsigned long\<close>: the test \<^verbatim>\<open>bytes <= 0\<close> is the unsigned order of
  the word, and the returned \<^verbatim>\<open>long\<close> has the same bits.
\<close>

definition ringbuffer_write_fd ::
  "writev_t \<Rightarrow> ringbuffer option \<Rightarrow> int \<Rightarrow> long \<Rightarrow> (failure + long) \<times> ringbuffer option" where
  "ringbuffer_write_fd writev p fd amount =
     (case p of
        None \<Rightarrow> (Inl (Error EINVAL), None)
      | Some rb \<Rightarrow>
          if sint amount > sint (size_rb rb) then (Inl (Error ENOMEM), Some rb)
          else
            let (bytes, e) = writev fd (gather (storage rb) (write_fd_iov rb amount))
            in if bytes \<le> 0 then
                 (if e \<noteq> EAGAIN \<and> e \<noteq> EWOULDBLOCK then (Inl (Error e), Some rb)
                  else (Inr bytes, Some rb))
               else
                 (Inr bytes,
                  Some (rb\<lparr>read_offset := (read_offset rb + bytes) AND (size_rb rb - 1)\<rparr>)))"

text \<open>
  What \<^verbatim>\<open>readv\<close> does to the storage: the bytes go into the segments in order, each
  segment taking at most its length.
\<close>

definition store :: "byte list \<Rightarrow> nat \<Rightarrow> byte list \<Rightarrow> byte list" where
  "store st b bs =
     (if b + length bs \<le> length st then take b st @ bs @ drop (b + length bs) st else st)"

fun scatter :: "byte list \<Rightarrow> iovec list \<Rightarrow> byte list \<Rightarrow> byte list" where
  "scatter st [] bs = st"
| "scatter st ((b, l) # iov) bs = scatter (store st b (take l bs)) iov (drop l bs)"

text \<open>
  \<^verbatim>\<open>ringbuffer_read_fd\<close>, lines 307 to 355 (the spec's FillFromDescriptor).
\<close>

definition ringbuffer_read_fd ::
  "readv_t \<Rightarrow> ringbuffer option \<Rightarrow> int \<Rightarrow> long \<Rightarrow> (failure + long) \<times> ringbuffer option" where
  "ringbuffer_read_fd readv p fd amount =
     (case p of
        None \<Rightarrow> (Inl (Error EINVAL), None)
      | Some rb \<Rightarrow>
          if sint amount > sint (size_rb rb) then (Inl (Error ENOMEM), Some rb)
          else
            let iov = read_fd_iov rb amount;
                (bytes, e, received) = readv fd (map snd iov);
                rb1 = rb\<lparr>storage := scatter (storage rb) iov received\<rparr>
            in if bytes \<le> 0 then
                 (if e \<noteq> EAGAIN \<and> e \<noteq> EWOULDBLOCK then (Inl (Error e), Some rb1)
                  else (Inr bytes, Some rb1))
               else
                 (Inr bytes,
                  Some (rb1\<lparr>write_offset := (write_offset rb + bytes) AND (size_rb rb - 1)\<rparr>)))"

section \<open>Well-formed buffers\<close>

text \<open>
  A buffer as the spec's data model has it: the capacity is a power of two, the storage
  has that many bytes, and both offsets lie below the capacity. An object of
  \<open>2 ^ 63\<close> bytes or more cannot be allocated, so the exponent stays below 63 and the
  capacity is positive as a \<^verbatim>\<open>long\<close> too.
\<close>

definition valid :: "ringbuffer \<Rightarrow> bool" where
  "valid rb \<longleftrightarrow>
     (\<exists>k \<in> {0..<63}. size_rb rb = 2 ^ k) \<and>
     length (storage rb) = unat (size_rb rb) \<and>
     read_offset rb < size_rb rb \<and>
     write_offset rb < size_rb rb"

section \<open>Runs of operations\<close>

text \<open>
  The operations of the interface as values, each with its arguments; a descriptor
  transfer carries the answer of the environment to its system call. \<open>step\<close> is the buffer
  an operation leaves behind, whatever it returns.
\<close>

datatype operation =
    Flush byte
  | FillCount
  | FreeCount
  | ReadInto "byte list option" long
  | WriteFrom "byte list option" long
  | DrainToDescriptor writev_t int long
  | FillFromDescriptor readv_t int long

fun step :: "operation \<Rightarrow> ringbuffer option \<Rightarrow> ringbuffer option" where
  "step (Flush c) p = snd (ringbuffer_flush p c)"
| "step FillCount p = p"
| "step FreeCount p = p"
| "step (ReadInto dst n) p = fst (snd (ringbuffer_write_memory p dst n))"
| "step (WriteFrom src n) p = snd (ringbuffer_read_memory p src n)"
| "step (DrainToDescriptor wv fd n) p = snd (ringbuffer_write_fd wv p fd n)"
| "step (FillFromDescriptor rv fd n) p = snd (ringbuffer_read_fd rv p fd n)"

section \<open>Vocabulary of the properties\<close>

text \<open>
  The \<open>n\<close> bytes a storage holds from the index \<open>p\<close> on, going round at its end: the
  byte at position \<open>i\<close> of the result is the one at the index \<open>(p + i) mod length st\<close>
  (lemma \<open>ring_bytes_nth\<close>).
\<close>

definition ring_bytes :: "byte list \<Rightarrow> nat \<Rightarrow> nat \<Rightarrow> byte list" where
  "ring_bytes st p n = take n (rotate p st)"

text \<open>
  Specification of a descriptor transfer's vector, after the spec's wording of the wrap:
  the segments of a span of \<open>n\<close> cells from the index \<open>p\<close> on in a storage of \<open>cap\<close> cells,
  each as its start index and its length. No cell gives no segment; a span that ends
  before the end of the storage is one segment; any other span is the run up to the end
  of the storage and then the remainder from the start of the storage (which is empty
  when the span ends on the last cell). It is compared below with the vector the source
  builds, \<open>span_iov\<close>.
\<close>

definition spec_iov :: "nat \<Rightarrow> nat \<Rightarrow> nat \<Rightarrow> iovec list" where
  "spec_iov cap p n =
     (if n = 0 then []
      else if p + n < cap then [(p, n)]
      else [(p, cap - p), (0, p + n - cap)])"

text \<open>Both offsets lie below the capacity.\<close>

definition in_range :: "ringbuffer \<Rightarrow> bool" where
  "in_range rb \<longleftrightarrow> read_offset rb < size_rb rb \<and> write_offset rb < size_rb rb"

section \<open>Example buffers\<close>

text \<open>
  A buffer of capacity 4 that holds two unread bytes across the end of its storage (at the
  indices 3 and 0); the closed instances below are evaluated on it.
\<close>

definition example_rb :: ringbuffer where
  "example_rb = \<lparr>size_rb = 4, read_offset = 3, write_offset = 1, storage = [10, 11, 12, 13]\<rparr>"

text \<open>An empty buffer of capacity 4 whose offsets stand at the last index.\<close>

definition empty_rb :: ringbuffer where
  "empty_rb = \<lparr>size_rb = 4, read_offset = 3, write_offset = 3, storage = [0, 0, 0, 0]\<rparr>"

text \<open>
  An allocator that grants every request and hands out zeroed memory.
\<close>

definition zero_heap :: allocator where
  "zero_heap = \<lparr>ctl_ok = True, junk_read = 0, junk_write = 0, mem_ok = (\<lambda>n. True),
     junk = (\<lambda>i. 0)\<rparr>"

text \<open>
  A buffer of capacity 4 that holds one unread byte, at the index 3: its fill count is 1
  and its free count is 3.
\<close>

definition skewed_rb :: ringbuffer where
  "skewed_rb = \<lparr>size_rb = 4, read_offset = 3, write_offset = 0, storage = [10, 11, 12, 13]\<rparr>"

text \<open>
  A \<^verbatim>\<open>writev\<close> that takes every byte it is handed and returns their number, and a
  \<^verbatim>\<open>readv\<close> that fills every cell it is offered with the byte 7 and returns their
  number; \<^verbatim>\<open>errno\<close> stands at a would-block value left by an earlier call.
\<close>

definition writev_all :: writev_t where
  "writev_all fd segs = (of_nat (length (concat segs)), EAGAIN)"

definition readv_sevens :: readv_t where
  "readv_sevens fd lens = (of_nat (sum_list lens), EAGAIN, replicate (sum_list lens) 7)"

section \<open>Words and natural numbers\<close>

lemma unat_pow2_64: "k < 64 \<Longrightarrow> unat (2 ^ k :: 64 word) = 2 ^ k"
proof -
  assume k: "k < 64"
  have "(2 ^ k :: 64 word) = of_nat (2 ^ k)" by simp
  moreover have "(2::nat) ^ k < 2 ^ 64" using k by (intro power_strict_increasing) auto
  ultimately show ?thesis by (simp add: unat_of_nat del: of_nat_power of_nat_numeral)
qed

lemma sint_small: "unat (x :: 64 word) < 2 ^ 63 \<Longrightarrow> sint x = int (unat x)"
proof -
  assume a: "unat x < 2 ^ 63"
  have "int (unat x) < int (2 ^ 63)" using a by (simp only: of_nat_less_iff)
  then have "int (unat x) < 2 ^ 63" by (simp only: of_nat_power of_nat_numeral)
  moreover have "- (2 ^ 63) \<le> int (unat x)" by (rule order_trans [of _ 0]) simp_all
  ultimately have "signed_take_bit 63 (int (unat x)) = int (unat x)"
    by (intro signed_take_bit_int_eq_self)
  then show ?thesis by (simp add: sint_uint)
qed

lemma mask_pow2: "unat ((x :: 64 word) AND (2 ^ k - 1)) = unat x mod 2 ^ k"
proof -
  have "x AND (2 ^ k - 1) = take_bit k x"
    by (simp add: take_bit_eq_mask mask_eq_exp_minus_1)
  then show ?thesis by (simp add: unsigned_take_bit_eq take_bit_nat_def)
qed

text \<open>The capacity of a well-formed buffer, as a natural number.\<close>

lemma valid_size:
  assumes "valid rb"
  obtains k where "k < 63" "size_rb rb = 2 ^ k" "unat (size_rb rb) = 2 ^ k"
proof -
  from assms obtain k where k: "k < 63" "size_rb rb = 2 ^ k" by (auto simp: valid_def)
  then have "unat (size_rb rb) = 2 ^ k" by (simp add: unat_pow2_64)
  with k show ?thesis by (rule that)
qed

lemma valid_size_bound:
  assumes "valid rb"
  shows "unat (size_rb rb) < 2 ^ 63"
proof -
  from assms obtain k where k: "k < 63" "unat (size_rb rb) = 2 ^ k" by (rule valid_size)
  have "(2::nat) ^ k < 2 ^ 63" using k(1) by (intro power_strict_increasing) auto
  with k(2) show ?thesis by (simp only:)
qed

lemma valid_size_pos: "valid rb \<Longrightarrow> 0 < unat (size_rb rb)"
  by (erule valid_size) simp

lemma valid_offsets:
  "valid rb \<Longrightarrow> unat (read_offset rb) < unat (size_rb rb) \<and> unat (write_offset rb) < unat (size_rb rb)"
  by (simp add: valid_def word_less_nat_alt)

lemma valid_length: "valid rb \<Longrightarrow> length (storage rb) = unat (size_rb rb)"
  by (simp add: valid_def)

lemma valid_mask: "valid rb \<Longrightarrow> unat (x AND (size_rb rb - 1)) = unat x mod unat (size_rb rb)"
  by (erule valid_size) (simp only: mask_pow2)

lemma unat_add_small:
  "unat (x :: 64 word) < 2 ^ 63 \<Longrightarrow> unat y < 2 ^ 63 \<Longrightarrow> unat (x + y) = unat x + unat y"
proof -
  assume "unat x < 2 ^ 63" "unat y < 2 ^ 63"
  then have "unat x + unat y < 2 ^ 63 + 2 ^ 63" by (rule add_strict_mono)
  then have "unat x + unat y < 2 ^ LENGTH(64)" by simp
  then show ?thesis by (simp only: unat_add_lem)
qed

lemma unat_fill_count:
  assumes "valid rb"
  shows "unat (fill_count rb) =
           (if unat (read_offset rb) \<le> unat (write_offset rb)
            then unat (write_offset rb) - unat (read_offset rb)
            else unat (write_offset rb) + unat (size_rb rb) - unat (read_offset rb))"
proof -
  let ?r = "read_offset rb" and ?w = "write_offset rb" and ?s = "size_rb rb"
  have b: "unat ?s < 2 ^ 63" using assms by (rule valid_size_bound)
  have o: "unat ?r < unat ?s" "unat ?w < unat ?s" using valid_offsets [OF assms] by simp_all
  have ws: "unat (?w + ?s) = unat ?w + unat ?s"
    using b o by (intro unat_add_small) simp_all
  show ?thesis
  proof (cases "?r \<le> ?w")
    case True
    then show ?thesis by (simp add: fill_count_def unat_sub word_le_nat_alt)
  next
    case False
    then have lt: "?w < ?r" by simp
    have "?r \<le> ?w + ?s" using o ws by (simp add: word_le_nat_alt)
    then have "unat (?w + ?s - ?r) = unat ?w + unat ?s - unat ?r"
      by (simp add: unat_sub ws)
    with False lt show ?thesis by (simp add: fill_count_def word_le_nat_alt)
  qed
qed

lemma fill_count_less:
  assumes "valid rb"
  shows "unat (fill_count rb) < unat (size_rb rb)"
  using valid_offsets [OF assms] by (simp only: unat_fill_count [OF assms]) arith

lemma unat_free_count:
  assumes "valid rb"
  shows "unat (free_count rb) = unat (size_rb rb) - unat (fill_count rb)"
proof -
  have "fill_count rb \<le> size_rb rb"
    using fill_count_less [OF assms] by (simp add: word_le_nat_alt)
  then show ?thesis by (simp add: free_count_def unat_sub)
qed

lemma valid_sint_size: "valid rb \<Longrightarrow> sint (size_rb rb) = int (unat (size_rb rb))"
  by (intro sint_small valid_size_bound)

lemma valid_sint_fill:
  assumes "valid rb"
  shows "sint (fill_count rb) = int (unat (fill_count rb))"
proof (rule sint_small)
  show "unat (fill_count rb) < 2 ^ 63"
    using fill_count_less [OF assms] valid_size_bound [OF assms] by (rule less_trans)
qed

lemma valid_sint_free:
  assumes "valid rb"
  shows "sint (free_count rb) = int (unat (free_count rb))"
proof (rule sint_small)
  have "unat (free_count rb) \<le> unat (size_rb rb)" by (simp add: unat_free_count [OF assms])
  then show "unat (free_count rb) < 2 ^ 63"
    using valid_size_bound [OF assms] by (rule le_less_trans)
qed

lemma sint_amount:
  assumes "valid rb" and "unat (amount :: long) \<le> unat (size_rb rb)"
  shows "sint amount = int (unat amount)"
proof (rule sint_small)
  show "unat amount < 2 ^ 63"
    using assms(2) valid_size_bound [OF assms(1)] by (rule le_less_trans)
qed

section \<open>Spans of the storage\<close>

lemma clamp_fill:
  assumes "valid rb" and "unat (amount :: long) \<le> unat (size_rb rb)"
  shows "unat (if sint amount > sint (fill_count rb) then fill_count rb else amount) =
           min (unat amount) (unat (fill_count rb))"
proof -
  have "sint amount > sint (fill_count rb) \<longleftrightarrow> unat amount > unat (fill_count rb)"
    by (simp only: sint_amount [OF assms] valid_sint_fill [OF assms(1)] of_nat_less_iff)
  then show ?thesis by (simp add: min_def)
qed

lemma clamp_free:
  assumes "valid rb" and "unat (amount :: long) \<le> unat (size_rb rb)"
  shows "unat (if sint amount > sint (free_count rb) then free_count rb else amount) =
           min (unat amount) (unat (free_count rb))"
proof -
  have "sint amount > sint (free_count rb) \<longleftrightarrow> unat amount > unat (free_count rb)"
    by (simp only: sint_amount [OF assms] valid_sint_free [OF assms(1)] of_nat_less_iff)
  then show ?thesis by (simp add: min_def)
qed

text \<open>
  The end index of a span of \<open>a\<close> bytes that starts at \<open>off\<close>, and the three cases the
  source distinguishes, in natural numbers.
\<close>

lemma span_end:
  assumes v: "valid rb" and o: "unat (off :: ulong) < unat (size_rb rb)"
    and a: "unat (a :: long) \<le> unat (size_rb rb)"
  shows "unat ((off + a) AND (size_rb rb - 1)) = (unat off + unat a) mod unat (size_rb rb)"
proof -
  have b: "unat (size_rb rb) < 2 ^ 63" using v by (rule valid_size_bound)
  have "unat (off + a) = unat off + unat a"
    using o a b by (intro unat_add_small) simp_all
  then show ?thesis by (simp add: valid_mask [OF v])
qed

lemma span_empty:
  assumes v: "valid rb" and o: "unat (off :: ulong) < unat (size_rb rb)"
    and a: "unat (a :: long) = 0 \<or> unat a = unat (size_rb rb)"
  shows "(off + a) AND (size_rb rb - 1) = off"
proof -
  have "unat ((off + a) AND (size_rb rb - 1)) = unat off"
    using a o by (subst span_end [OF v o]) auto
  then show ?thesis by (simp only: word_unat_eq_iff)
qed

lemma span_straight:
  assumes v: "valid rb" and o: "unat (off :: ulong) < unat (size_rb rb)"
    and a: "0 < unat (a :: long)" "unat off + unat a < unat (size_rb rb)"
  shows "off < (off + a) AND (size_rb rb - 1)"
    and "unat (((off + a) AND (size_rb rb - 1)) - off) = unat a"
proof -
  have e: "unat ((off + a) AND (size_rb rb - 1)) = unat off + unat a"
    using a by (subst span_end [OF v o]) simp_all
  show lt: "off < (off + a) AND (size_rb rb - 1)"
    using a by (simp add: word_less_nat_alt e)
  then have "off \<le> (off + a) AND (size_rb rb - 1)" by simp
  then have "unat (((off + a) AND (size_rb rb - 1)) - off) =
      unat ((off + a) AND (size_rb rb - 1)) - unat off" by (rule unat_sub)
  then show "unat (((off + a) AND (size_rb rb - 1)) - off) = unat a"
    by (simp add: e)
qed

lemma span_wrapped:
  assumes v: "valid rb" and o: "unat (off :: ulong) < unat (size_rb rb)"
    and a: "unat (a :: long) < unat (size_rb rb)" "unat (size_rb rb) \<le> unat off + unat a"
  shows "\<not> off < (off + a) AND (size_rb rb - 1)"
    and "(off + a) AND (size_rb rb - 1) < off"
    and "unat (size_rb rb - off) = unat (size_rb rb) - unat off"
    and "unat ((off + a) AND (size_rb rb - 1)) = unat off + unat a - unat (size_rb rb)"
proof -
  have "(unat off + unat a) mod unat (size_rb rb) = unat off + unat a - unat (size_rb rb)"
    using a o by (simp add: mod_if)
  then show e: "unat ((off + a) AND (size_rb rb - 1)) = unat off + unat a - unat (size_rb rb)"
    using a by (subst span_end [OF v o]) simp_all
  show lt: "(off + a) AND (size_rb rb - 1) < off"
    using a o by (simp add: word_less_nat_alt e)
  then show "\<not> off < (off + a) AND (size_rb rb - 1)" by simp
  have "off \<le> size_rb rb" using o by (simp add: word_le_nat_alt)
  then show "unat (size_rb rb - off) = unat (size_rb rb) - unat off" by (rule unat_sub)
qed

section \<open>Copies as rotations\<close>

lemma rotate_less: "p < length xs \<Longrightarrow> rotate p xs = drop p xs @ take p xs"
  by (simp add: rotate_drop_take)

lemma memcpy_out_straight:
  assumes "r + n < length st" "n \<le> length buf"
  shows "memcpy buf 0 st r n = Some (take n (rotate r st) @ drop n buf)"
  using assms by (simp add: memcpy_def rotate_less)

lemma memcpy_out_wrapped:
  assumes "r < length st" "n < length st" "length st \<le> r + n" "n \<le> length buf"
  shows "(case memcpy buf 0 st r (length st - r) of
            None \<Rightarrow> None
          | Some b1 \<Rightarrow> map_option Some (memcpy b1 (length st - r) st 0 (r + n - length st))) =
         Some (Some (take n (rotate r st) @ drop n buf))"
proof -
  have 1: "memcpy buf 0 st r (length st - r) = Some (drop r st @ drop (length st - r) buf)"
    using assms by (simp add: memcpy_def)
  have 2: "memcpy (drop r st @ drop (length st - r) buf) (length st - r) st 0 (r + n - length st) =
             Some (drop r st @ take (r + n - length st) st @ drop n buf)"
    using assms by (simp add: memcpy_def)
  have 3: "take n (rotate r st) = drop r st @ take (r + n - length st) st"
  proof -
    have "r + n - length st \<le> r" using assms by simp
    then show ?thesis using assms by (simp add: rotate_less min_def add.commute)
  qed
  show ?thesis by (simp add: 1 2 3)
qed

lemma memcpy_in_straight:
  assumes "w + n < length st" "n \<le> length buf"
  shows "\<exists>st'. memcpy st w buf 0 n = Some st' \<and> length st' = length st \<and>
           rotate w st' = take n buf @ drop n (rotate w st)"
  using assms by (simp add: memcpy_def rotate_less add.commute)

lemma memcpy_in_wrapped:
  assumes "w < length st" "n < length st" "length st \<le> w + n" "n \<le> length buf"
  shows "\<exists>st'. (case memcpy st w buf 0 (length st - w) of
                   None \<Rightarrow> None
                 | Some st1 \<Rightarrow> memcpy st1 0 buf (length st - w) (w + n - length st)) = Some st' \<and>
           length st' = length st \<and>
           rotate w st' = take n buf @ drop n (rotate w st)"
proof -
  let ?e = "w + n - length st"
  have 1: "memcpy st w buf 0 (length st - w) = Some (take w st @ take (length st - w) buf)"
    using assms by (simp add: memcpy_def)
  have 2: "memcpy (take w st @ take (length st - w) buf) 0 buf (length st - w) ?e =
             Some (take ?e (drop (length st - w) buf) @ drop ?e (take w st) @ take (length st - w) buf)"
    using assms by (simp add: memcpy_def)
  let ?st' = "take ?e (drop (length st - w) buf) @ drop ?e (take w st) @ take (length st - w) buf"
  have l: "length ?st' = length st" using assms by simp
  have tk: "take w ?st' = take ?e (drop (length st - w) buf) @ drop ?e (take w st)"
    using assms by simp
  have dr: "drop w ?st' = take (length st - w) buf"
    using assms by simp
  have nb: "take n buf = take (length st - w) buf @ take ?e (drop (length st - w) buf)"
  proof -
    have "n = (length st - w) + ?e" using assms by simp
    then show ?thesis by (metis take_add)
  qed
  have 3: "rotate w ?st' = take n buf @ drop n (rotate w st)"
  proof -
    have r1: "rotate w ?st' = drop w ?st' @ take w ?st'" using assms l by (simp only: rotate_less)
    have r2: "drop ?e (take w st) = drop n (rotate w st)"
      using assms by (simp add: rotate_less add.commute)
    show ?thesis unfolding r1 tk dr by (simp only: nb r2 append_assoc)
  qed
  show ?thesis using l 3 by (simp only: 1 2 option.case) blast
qed

lemma copy_out_ring:
  assumes v: "valid rb" and a: "unat (a :: long) < unat (size_rb rb)"
    and b: "unat a \<le> length buffer"
  shows "copy_out rb (Some buffer) a =
           Some (Some (take (unat a) (rotate (unat (read_offset rb)) (storage rb)) @
                       drop (unat a) buffer))"
proof -
  let ?S = "unat (size_rb rb)" and ?r = "unat (read_offset rb)" and ?st = "storage rb"
  have o: "?r < ?S" using valid_offsets [OF v] by simp
  have len: "length ?st = ?S" using v by (rule valid_length)
  consider "unat a = 0" | "0 < unat a" "?r + unat a < ?S" | "?S \<le> ?r + unat a"
    by linarith
  then show ?thesis
  proof cases
    case 1
    then have "(read_offset rb + a) AND (size_rb rb - 1) = read_offset rb"
      by (intro span_empty [OF v o]) simp
    then show ?thesis using 1 by (simp add: copy_out_def)
  next
    case 2
    note s = span_straight [OF v o 2]
    have "memcpy buffer 0 ?st ?r (unat a) = Some (take (unat a) (rotate ?r ?st) @ drop (unat a) buffer)"
      using 2 b len by (intro memcpy_out_straight) simp_all
    then show ?thesis by (simp add: copy_out_def Let_def s)
  next
    case 3
    note s = span_wrapped [OF v o a 3]
    have "(case memcpy buffer 0 ?st ?r (length ?st - ?r) of
            None \<Rightarrow> None
          | Some b1 \<Rightarrow> map_option Some (memcpy b1 (length ?st - ?r) ?st 0 (?r + unat a - length ?st))) =
         Some (Some (take (unat a) (rotate ?r ?st) @ drop (unat a) buffer))"
      using 3 a b o len by (intro memcpy_out_wrapped) simp_all
    then show ?thesis by (simp add: copy_out_def Let_def s len cong: option.case_cong)
  qed
qed

lemma copy_in_ring:
  assumes v: "valid rb" and a: "unat (a :: long) < unat (size_rb rb)"
    and b: "unat a \<le> length buffer"
  shows "\<exists>st. copy_in rb (Some buffer) a = Some st \<and> length st = unat (size_rb rb) \<and>
           rotate (unat (write_offset rb)) st =
             take (unat a) buffer @ drop (unat a) (rotate (unat (write_offset rb)) (storage rb))"
proof -
  let ?S = "unat (size_rb rb)" and ?w = "unat (write_offset rb)" and ?st = "storage rb"
  have o: "?w < ?S" using valid_offsets [OF v] by simp
  have len: "length ?st = ?S" using v by (rule valid_length)
  consider "unat a = 0" | "0 < unat a" "?w + unat a < ?S" | "?S \<le> ?w + unat a"
    by linarith
  then show ?thesis
  proof cases
    case 1
    then have "(write_offset rb + a) AND (size_rb rb - 1) = write_offset rb"
      by (intro span_empty [OF v o]) simp
    then show ?thesis using 1 len by (simp add: copy_in_def)
  next
    case 2
    note s = span_straight [OF v o 2]
    have "\<exists>st'. memcpy ?st ?w buffer 0 (unat a) = Some st' \<and> length st' = length ?st \<and>
           rotate ?w st' = take (unat a) buffer @ drop (unat a) (rotate ?w ?st)"
      using 2 b len by (intro memcpy_in_straight) simp_all
    then show ?thesis by (simp add: copy_in_def Let_def s len)
  next
    case 3
    note s = span_wrapped [OF v o a 3]
    have "\<exists>st'. (case memcpy ?st ?w buffer 0 (length ?st - ?w) of
                   None \<Rightarrow> None
                 | Some st1 \<Rightarrow> memcpy st1 0 buffer (length ?st - ?w) (?w + unat a - length ?st)) = Some st' \<and>
           length st' = length ?st \<and>
           rotate ?w st' = take (unat a) buffer @ drop (unat a) (rotate ?w ?st)"
      using 3 a b o len by (intro memcpy_in_wrapped) simp_all
    then show ?thesis by (simp add: copy_in_def Let_def s len cong: option.case_cong)
  qed
qed

lemma valid_masked_offset:
  assumes "valid rb"
  shows "x AND (size_rb rb - 1) < size_rb rb"
proof -
  have "unat (x AND (size_rb rb - 1)) < unat (size_rb rb)"
    using valid_size_pos [OF assms] by (simp add: valid_mask [OF assms])
  then show ?thesis by (simp only: word_less_nat_alt)
qed

text \<open>WriteFrom on a well-formed buffer.\<close>

lemma read_memory_valid:
  assumes v: "valid rb" and a: "unat (amount :: long) \<le> unat (size_rb rb)"
    and n: "min (unat amount) (unat (free_count rb)) < unat (size_rb rb)"
    and b: "min (unat amount) (unat (free_count rb)) \<le> length src"
  shows "\<exists>a' st. ringbuffer_read_memory (Some rb) (Some src) amount =
             (Inr a', Some (rb\<lparr>storage := st,
                write_offset := (write_offset rb + a') AND (size_rb rb - 1)\<rparr>)) \<and>
           unat a' = min (unat amount) (unat (free_count rb)) \<and>
           length st = unat (size_rb rb) \<and>
           rotate (unat (write_offset rb)) st =
             take (unat a') src @ drop (unat a') (rotate (unat (write_offset rb)) (storage rb))"
proof -
  let ?a' = "if sint amount > sint (free_count rb) then free_count rb else amount"
  have ua: "unat ?a' = min (unat amount) (unat (free_count rb))"
    using v a by (rule clamp_free)
  have big: "\<not> sint amount > sint (size_rb rb)"
    using a by (simp only: sint_amount [OF v a] valid_sint_size [OF v] of_nat_less_iff)
  from copy_in_ring [OF v, of ?a' src] n b ua
  obtain st where st: "copy_in rb (Some src) ?a' = Some st" "length st = unat (size_rb rb)"
    "rotate (unat (write_offset rb)) st =
       take (unat ?a') src @ drop (unat ?a') (rotate (unat (write_offset rb)) (storage rb))"
    by auto
  have "ringbuffer_read_memory (Some rb) (Some src) amount =
          (Inr ?a', Some (rb\<lparr>storage := st,
              write_offset := (write_offset rb + ?a') AND (size_rb rb - 1)\<rparr>))"
    using big st(1) by (simp add: ringbuffer_read_memory_def Let_def)
  with ua st(2,3) show ?thesis by blast
qed

text \<open>ReadInto on a well-formed buffer.\<close>

lemma write_memory_valid:
  assumes v: "valid rb" and a: "unat (amount :: long) \<le> unat (size_rb rb)"
    and b: "min (unat amount) (unat (fill_count rb)) \<le> length dst"
  shows "\<exists>a'. ringbuffer_write_memory (Some rb) (Some dst) amount =
             (Inr a', Some (rb\<lparr>read_offset := (read_offset rb + a') AND (size_rb rb - 1)\<rparr>),
              Some (take (unat a') (rotate (unat (read_offset rb)) (storage rb)) @
                    drop (unat a') dst)) \<and>
           unat a' = min (unat amount) (unat (fill_count rb))"
proof -
  let ?a' = "if sint amount > sint (fill_count rb) then fill_count rb else amount"
  have ua: "unat ?a' = min (unat amount) (unat (fill_count rb))"
    using v a by (rule clamp_fill)
  have big: "\<not> sint amount > sint (size_rb rb)"
    using a by (simp only: sint_amount [OF v a] valid_sint_size [OF v] of_nat_less_iff)
  have lt: "unat ?a' < unat (size_rb rb)"
    using fill_count_less [OF v] by (simp add: ua)
  have le: "unat ?a' \<le> length dst" using b by (simp only: ua)
  have "ringbuffer_write_memory (Some rb) (Some dst) amount =
          (Inr ?a', Some (rb\<lparr>read_offset := (read_offset rb + ?a') AND (size_rb rb - 1)\<rparr>),
           Some (take (unat ?a') (rotate (unat (read_offset rb)) (storage rb)) @
                 drop (unat ?a') dst))"
    using big by (simp add: ringbuffer_write_memory_def Let_def copy_out_ring [OF v lt le])
  with ua show ?thesis by blast
qed

section \<open>Counts after a transfer\<close>

lemma valid_read_offset_update:
  "valid rb \<Longrightarrow> valid (rb\<lparr>read_offset := x AND (size_rb rb - 1)\<rparr>)"
  using valid_masked_offset [of rb x] by (simp add: valid_def)

lemma valid_write_update:
  "valid rb \<Longrightarrow> length st = unat (size_rb rb) \<Longrightarrow>
     valid (rb\<lparr>storage := st, write_offset := x AND (size_rb rb - 1)\<rparr>)"
  using valid_masked_offset [of rb x] by (simp add: valid_def)

lemma word_min_unat: "unat (min (x :: long) y) = min (unat x) (unat y)"
  by (simp add: min_def word_le_nat_alt)

lemma clamp_fill_min:
  assumes "valid rb" and "unat (amount :: long) \<le> unat (size_rb rb)"
  shows "(if sint amount > sint (fill_count rb) then fill_count rb else amount) =
           min amount (fill_count rb)"
  using clamp_fill [OF assms] by (simp only: word_unat_eq_iff word_min_unat)

lemma clamp_free_min:
  assumes "valid rb" and "unat (amount :: long) \<le> unat (size_rb rb)"
  shows "(if sint amount > sint (free_count rb) then free_count rb else amount) =
           min amount (free_count rb)"
  using clamp_free [OF assms] by (simp only: word_unat_eq_iff word_min_unat)

lemma advance_nat:
  fixes r w n S :: nat
  assumes "r < S" "w < S" "n \<le> (if r \<le> w then w - r else w + S - r)"
  shows "(if (if r + n < S then r + n else r + n - S) \<le> w
          then w - (if r + n < S then r + n else r + n - S)
          else w + S - (if r + n < S then r + n else r + n - S)) =
         (if r \<le> w then w - r else w + S - r) - n"
proof (cases "r \<le> w")
  case True
  then have "r + n \<le> w" using assms by simp
  moreover from this have "r + n < S" using assms by simp
  ultimately show ?thesis using True by simp
next
  case False
  then have n: "r + n \<le> w + S" and wr: "w < r" using assms by simp_all
  show ?thesis
  proof (cases "r + n < S")
    case True
    then show ?thesis using False wr by simp
  next
    case b: False
    have "r + n - S \<le> w" using n by arith
    then show ?thesis using False b assms by simp
  qed
qed

lemma fill_count_advance:
  assumes v: "valid rb" and n: "unat (n :: long) \<le> unat (fill_count rb)"
  shows "fill_count (rb\<lparr>read_offset := (read_offset rb + n) AND (size_rb rb - 1)\<rparr>) =
           fill_count rb - n"
proof -
  let ?rb' = "rb\<lparr>read_offset := (read_offset rb + n) AND (size_rb rb - 1)\<rparr>"
  let ?S = "unat (size_rb rb)" and ?r = "unat (read_offset rb)" and ?w = "unat (write_offset rb)"
  have v': "valid ?rb'" using v by (rule valid_read_offset_update)
  have o: "?r < ?S" "?w < ?S" using valid_offsets [OF v] by simp_all
  have nS: "unat n \<le> ?S" using n fill_count_less [OF v] by simp
  have r': "unat ((read_offset rb + n) AND (size_rb rb - 1)) = (?r + unat n) mod ?S"
    by (rule span_end [OF v o(1) nS])
  have f: "unat (fill_count rb) = (if ?r \<le> ?w then ?w - ?r else ?w + ?S - ?r)"
    by (rule unat_fill_count [OF v])
  have f': "unat (fill_count ?rb') =
      (if (?r + unat n) mod ?S \<le> ?w then ?w - (?r + unat n) mod ?S
       else ?w + ?S - (?r + unat n) mod ?S)"
    using unat_fill_count [OF v'] by (simp add: r')
  have m: "(?r + unat n) mod ?S = (if ?r + unat n < ?S then ?r + unat n else ?r + unat n - ?S)"
    using o nS by (simp add: mod_if)
  have "unat (fill_count ?rb') = unat (fill_count rb) - unat n"
    using n o unfolding f' m f by (intro advance_nat) simp_all
  moreover have "unat (fill_count rb - n) = unat (fill_count rb) - unat n"
    using n by (intro unat_sub) (simp add: word_le_nat_alt)
  ultimately show ?thesis by (simp only: word_unat_eq_iff)
qed


lemma ring_bytes_nth:
  "i < n \<Longrightarrow> n \<le> length st \<Longrightarrow> ring_bytes st p n ! i = st ! ((p + i) mod length st)"
  by (simp add: ring_bytes_def nth_rotate)

lemma fill_nat_after_write:
  fixes r w n S :: nat
  assumes "r < S" "w < S" "(if r \<le> w then w - r else w + S - r) + n < S"
  shows "(if r \<le> (w + n) mod S then (w + n) mod S - r else (w + n) mod S + S - r) =
         (if r \<le> w then w - r else w + S - r) + n"
proof (cases "r \<le> w")
  case True
  show ?thesis
  proof (cases "w + n < S")
    case True
    then show ?thesis using \<open>r \<le> w\<close> by simp
  next
    case False
    then have m: "(w + n) mod S = w + n - S" using assms by (simp add: mod_if)
    have "w + n - S < r" using assms True False by simp
    then show ?thesis using True False assms unfolding m by simp
  qed
next
  case False
  then have "w + n < r" using assms by simp
  then have "w + n < S" using assms by simp
  then show ?thesis using False \<open>w + n < r\<close> assms by (simp; arith)
qed

lemma empty_offsets:
  assumes v: "valid rb" and e: "fill_count rb = 0"
  shows "read_offset rb = write_offset rb"
proof -
  have "unat (fill_count rb) = 0" using e by simp
  then have "unat (read_offset rb) = unat (write_offset rb)"
    using valid_offsets [OF v] by (simp add: unat_fill_count [OF v] split: if_splits)
  then show ?thesis by (simp only: word_unat_eq_iff)
qed

lemma free_nat_wraps_to_read:
  fixes r w S :: nat
  assumes "r < S" "w < S"
  shows "(w + (S - (if r \<le> w then w - r else w + S - r))) mod S = r"
proof (cases "r \<le> w")
  case True
  then have "w + (S - (w - r)) = r + S" using assms by simp
  then show ?thesis using True assms by simp
next
  case False
  then have "w + (S - (w + S - r)) = r" using assms by simp
  then show ?thesis using False assms by simp
qed

lemma fill_count_after_write:
  assumes v: "valid rb" and n: "unat (fill_count rb) + unat (n :: long) < unat (size_rb rb)"
    and l: "length st = unat (size_rb rb)"
  shows "unat (fill_count (rb\<lparr>storage := st,
            write_offset := (write_offset rb + n) AND (size_rb rb - 1)\<rparr>)) =
         unat (fill_count rb) + unat n"
proof -
  let ?rb' = "rb\<lparr>storage := st, write_offset := (write_offset rb + n) AND (size_rb rb - 1)\<rparr>"
  let ?S = "unat (size_rb rb)" and ?r = "unat (read_offset rb)" and ?w = "unat (write_offset rb)"
  have v': "valid ?rb'" using v l by (rule valid_write_update)
  have o: "?r < ?S" "?w < ?S" using valid_offsets [OF v] by simp_all
  have nS: "unat n \<le> ?S" using n by simp
  have w': "unat ((write_offset rb + n) AND (size_rb rb - 1)) = (?w + unat n) mod ?S"
    by (rule span_end [OF v o(2) nS])
  have f: "unat (fill_count rb) = (if ?r \<le> ?w then ?w - ?r else ?w + ?S - ?r)"
    by (rule unat_fill_count [OF v])
  have f': "unat (fill_count ?rb') =
      (if ?r \<le> (?w + unat n) mod ?S then (?w + unat n) mod ?S - ?r
       else (?w + unat n) mod ?S + ?S - ?r)"
    using unat_fill_count [OF v'] by (simp add: w')
  show ?thesis using n o unfolding f' f by (intro fill_nat_after_write) simp_all
qed


lemma rotate_split:
  assumes "k \<le> length xs"
  shows "rotate (p + k) xs = drop k (rotate p xs) @ take k (rotate p xs)"
proof -
  have "rotate (p + k) xs = rotate k (rotate p xs)" by (simp add: rotate_rotate add.commute)
  also have "\<dots> = drop k (rotate p xs) @ take k (rotate p xs)"
  proof (cases "k = length xs")
    case True
    then show ?thesis by simp
  next
    case False
    then have "k < length (rotate p xs)" using assms by simp
    then show ?thesis by (rule rotate_less)
  qed
  finally show ?thesis .
qed

section \<open>Descriptor vectors\<close>

lemma span_iov_spec:
  assumes v: "valid rb" and o: "unat (off :: ulong) < unat (size_rb rb)"
    and a: "unat (a :: long) < unat (size_rb rb)"
  shows "span_iov rb off a = spec_iov (unat (size_rb rb)) (unat off) (unat a)"
proof -
  let ?S = "unat (size_rb rb)"
  consider "unat a = 0" | "0 < unat a" "unat off + unat a < ?S" | "?S \<le> unat off + unat a"
    by linarith
  then show ?thesis
  proof cases
    case 1
    then have "(off + a) AND (size_rb rb - 1) = off" by (intro span_empty [OF v o]) simp
    then show ?thesis using 1 by (simp add: span_iov_def spec_iov_def)
  next
    case 2
    note s = span_straight [OF v o 2]
    show ?thesis using 2 by (simp add: span_iov_def spec_iov_def Let_def s)
  next
    case 3
    note s = span_wrapped [OF v o a 3]
    have "0 < unat a" using 3 o by simp
    then show ?thesis using 3 by (simp add: span_iov_def spec_iov_def Let_def s)
  qed
qed

lemma spec_iov_total: "p < cap \<Longrightarrow> sum_list (map snd (spec_iov cap p n)) = n"
  by (simp add: spec_iov_def)

section \<open>The offsets stay in range\<close>

lemma masked_less: "(s :: ulong) \<noteq> 0 \<Longrightarrow> x AND (s - 1) < s"
proof -
  assume s: "s \<noteq> 0"
  have "x AND (s - 1) \<le> s - 1" by (rule word_and_le1)
  moreover have "s - 1 < s"
  proof -
    have "0 < unat s" using s by (simp add: unat_gt_0)
    then show ?thesis using s by (simp add: word_less_nat_alt unat_minus_one)
  qed
  ultimately show ?thesis by simp
qed

lemma step_in_range:
  assumes "in_range rb"
  shows "\<exists>rb'. step x (Some rb) = Some rb' \<and> size_rb rb' = size_rb rb \<and> in_range rb'"
proof -
  have s: "size_rb rb \<noteq> 0" using assms by (auto simp: in_range_def)
  note m = masked_less [OF s]
  show ?thesis
  proof (cases x)
    case (Flush c)
    then show ?thesis using assms s
      by (auto simp: ringbuffer_flush_def in_range_def word_neq_0_conv split: option.splits)
  next
    case FillCount
    then show ?thesis using assms by simp
  next
    case FreeCount
    then show ?thesis using assms by simp
  next
    case (ReadInto dst n)
    then show ?thesis using assms m
      by (auto simp: ringbuffer_write_memory_def in_range_def Let_def split: option.splits)
  next
    case (WriteFrom src n)
    then show ?thesis using assms m
      by (auto simp: ringbuffer_read_memory_def in_range_def Let_def split: option.splits)
  next
    case (DrainToDescriptor wv fd n)
    then show ?thesis using assms m
      by (auto simp: ringbuffer_write_fd_def in_range_def Let_def split: prod.splits)
  next
    case (FillFromDescriptor rv fd n)
    then show ?thesis using assms m
      by (auto simp: ringbuffer_read_fd_def in_range_def Let_def split: prod.splits)
  qed
qed

lemma run_in_range:
  "in_range rb \<Longrightarrow>
     \<exists>rb'. fold step ops (Some rb) = Some rb' \<and> size_rb rb' = size_rb rb \<and> in_range rb'"
proof (induction ops arbitrary: rb)
  case Nil
  then show ?case by simp
next
  case (Cons x ops)
  from step_in_range [OF Cons.prems, of x]
  obtain rb1 where 1: "step x (Some rb) = Some rb1" "size_rb rb1 = size_rb rb" "in_range rb1"
    by blast
  from Cons.IH [OF 1(3)] 1 show ?case by simp
qed

section \<open>Rounding up to a power of two\<close>

lemma smear_step:
  fixes x y :: "64 word"
  assumes "\<And>n. bit y n \<longleftrightarrow> (\<exists>m. n \<le> m \<and> m < n + k \<and> bit x m)"
  shows "bit (y OR drop_bit k y) n \<longleftrightarrow> (\<exists>m. n \<le> m \<and> m < n + 2 * k \<and> bit x m)"
proof -
  have "bit (y OR drop_bit k y) n \<longleftrightarrow> bit y n \<or> bit y (k + n)"
    by (simp add: bit_or_iff bit_drop_bit_eq)
  also have "\<dots> \<longleftrightarrow> (\<exists>m. n \<le> m \<and> m < n + k \<and> bit x m) \<or>
      (\<exists>m. k + n \<le> m \<and> m < k + n + k \<and> bit x m)"
    by (simp only: assms)
  also have "\<dots> \<longleftrightarrow> (\<exists>m. n \<le> m \<and> m < n + 2 * k \<and> bit x m)"
  proof
    assume "(\<exists>m. n \<le> m \<and> m < n + k \<and> bit x m) \<or>
      (\<exists>m. k + n \<le> m \<and> m < k + n + k \<and> bit x m)"
    then show "\<exists>m. n \<le> m \<and> m < n + 2 * k \<and> bit x m"
    proof (elim disjE exE)
      fix m assume "n \<le> m \<and> m < n + k \<and> bit x m"
      then have "n \<le> m \<and> m < n + 2 * k \<and> bit x m" by simp
      then show ?thesis ..
    next
      fix m assume "k + n \<le> m \<and> m < k + n + k \<and> bit x m"
      then have "n \<le> m \<and> m < n + 2 * k \<and> bit x m" by simp
      then show ?thesis ..
    qed
  next
    assume "\<exists>m. n \<le> m \<and> m < n + 2 * k \<and> bit x m"
    then obtain m where m: "n \<le> m" "m < n + 2 * k" "bit x m" by blast
    show "(\<exists>m. n \<le> m \<and> m < n + k \<and> bit x m) \<or>
      (\<exists>m. k + n \<le> m \<and> m < k + n + k \<and> bit x m)"
    proof (cases "m < n + k")
      case True
      with m show ?thesis by blast
    next
      case False
      with m have "k + n \<le> m \<and> m < k + n + k \<and> bit x m" by simp
      then show ?thesis by blast
    qed
  qed
  finally show ?thesis .
qed

lemma next_power_of_two_smear: "next_power_of_two sz = smear (sz - 1) + 1"
  by (simp add: next_power_of_two_def smear_def Let_def)

lemma bit_smear: "bit (smear x) n \<longleftrightarrow> (\<exists>m. n \<le> m \<and> bit x m)"
proof -
  define s1 where "s1 = x OR drop_bit 1 x"
  define s2 where "s2 = s1 OR drop_bit 2 s1"
  define s3 where "s3 = s2 OR drop_bit 4 s2"
  define s4 where "s4 = s3 OR drop_bit 8 s3"
  define s5 where "s5 = s4 OR drop_bit 16 s4"
  define s6 where "s6 = s5 OR drop_bit 32 s5"
  have b0: "bit x n \<longleftrightarrow> (\<exists>m. n \<le> m \<and> m < n + 1 \<and> bit x m)" for n
    by (auto simp: less_Suc_eq_le dest: le_antisym)
  have b1: "bit s1 n \<longleftrightarrow> (\<exists>m. n \<le> m \<and> m < n + 2 \<and> bit x m)" for n
    unfolding s1_def using smear_step [of x 1 x n, OF b0] by simp
  have b2: "bit s2 n \<longleftrightarrow> (\<exists>m. n \<le> m \<and> m < n + 4 \<and> bit x m)" for n
    unfolding s2_def using smear_step [of s1 2 x n, OF b1] by simp
  have b3: "bit s3 n \<longleftrightarrow> (\<exists>m. n \<le> m \<and> m < n + 8 \<and> bit x m)" for n
    unfolding s3_def using smear_step [of s2 4 x n, OF b2] by simp
  have b4: "bit s4 n \<longleftrightarrow> (\<exists>m. n \<le> m \<and> m < n + 16 \<and> bit x m)" for n
    unfolding s4_def using smear_step [of s3 8 x n, OF b3] by simp
  have b5: "bit s5 n \<longleftrightarrow> (\<exists>m. n \<le> m \<and> m < n + 32 \<and> bit x m)" for n
    unfolding s5_def using smear_step [of s4 16 x n, OF b4] by simp
  have b6: "bit s6 n \<longleftrightarrow> (\<exists>m. n \<le> m \<and> m < n + 64 \<and> bit x m)" for n
    unfolding s6_def using smear_step [of s5 32 x n, OF b5] by simp
  have "smear x = s6"
    by (simp add: smear_def Let_def s1_def s2_def s3_def s4_def s5_def s6_def)
  moreover have "(\<exists>m. n \<le> m \<and> m < n + 64 \<and> bit x m) \<longleftrightarrow> (\<exists>m. n \<le> m \<and> bit x m)"
  proof
    assume "\<exists>m. n \<le> m \<and> bit x m"
    then obtain m where m: "n \<le> m" "bit x m" by blast
    from m(2) have "m < 64" by (auto dest: bit_imp_le_length)
    with m have "n \<le> m \<and> m < n + 64 \<and> bit x m" by simp
    then show "\<exists>m. n \<le> m \<and> m < n + 64 \<and> bit x m" ..
  qed blast
  ultimately show ?thesis by (simp only: b6)
qed

lemma bit_imp_ge_pow2:
  fixes x :: ulong
  assumes "bit x m"
  shows "2 ^ m \<le> unat x"
proof (rule ccontr)
  assume "\<not> 2 ^ m \<le> unat x"
  then have "unat x div 2 ^ m = 0" by simp
  then have "\<not> bit (unat x) m" by (simp add: bit_iff_odd)
  then show False using assms by (simp add: bit_unsigned_iff)
qed

lemma high_bits_clear_less:
  fixes x :: ulong
  assumes "\<And>m. l \<le> m \<Longrightarrow> \<not> bit x m"
  shows "unat x < 2 ^ l"
proof -
  have "take_bit l x = x"
  proof (rule bit_eqI)
    fix n
    have "n < l" if "bit x n"
    proof (rule ccontr)
      assume "\<not> n < l"
      then have "l \<le> n" by simp
      then have "\<not> bit x n" by (rule assms)
      with that show False by simp
    qed
    then show "bit (take_bit l x) n \<longleftrightarrow> bit x n" by (auto simp: bit_take_bit_iff)
  qed
  then have "unat x = take_bit l (unat x)" by (metis unsigned_take_bit_eq)
  then have "unat x = unat x mod 2 ^ l" by (simp only: take_bit_nat_def)
  moreover have "unat x mod 2 ^ l < 2 ^ l" by simp
  ultimately show ?thesis by simp
qed

lemma smear_plus_one:
  fixes x :: ulong
  shows "\<exists>l \<le> 64. smear x + 1 = 2 ^ l \<and> unat x < 2 ^ l \<and> (0 < l \<longrightarrow> 2 ^ (l - 1) \<le> unat x)"
proof -
  define l where "l = (LEAST l. \<forall>m\<ge>l. \<not> bit x m)"
  have top: "\<forall>m\<ge>64. \<not> bit x m" by (auto dest: bit_imp_le_length)
  have clear: "\<forall>m\<ge>l. \<not> bit x m" unfolding l_def using top by (rule LeastI)
  have l64: "l \<le> 64" unfolding l_def using top by (rule Least_le)
  have below: "\<exists>m\<ge>n. bit x m" if "n < l" for n
  proof (rule ccontr)
    assume "\<not> (\<exists>m\<ge>n. bit x m)"
    then have "\<forall>m\<ge>n. \<not> bit x m" by blast
    then have "l \<le> n" unfolding l_def by (rule Least_le)
    with that show False by simp
  qed
  have bits: "bit (smear x) n \<longleftrightarrow> n < l" for n
  proof
    assume "bit (smear x) n"
    then obtain m where "n \<le> m" "bit x m" by (auto simp: bit_smear)
    with clear show "n < l" by (meson not_less order_trans)
  next
    assume "n < l"
    then show "bit (smear x) n" using below by (simp add: bit_smear)
  qed
  have "smear x = mask l"
  proof (rule bit_eqI)
    fix n
    show "bit (smear x) n \<longleftrightarrow> bit (mask l :: ulong) n"
      using l64 by (auto simp: bits bit_mask_iff)
  qed
  then have p: "smear x + 1 = 2 ^ l" by (simp add: mask_eq_exp_minus_1)
  have lt: "unat x < 2 ^ l" using clear by (intro high_bits_clear_less) simp
  have ge: "2 ^ (l - 1) \<le> unat x" if "0 < l"
  proof -
    from that have "l - 1 < l" by simp
    then obtain m where m: "l - 1 \<le> m" "bit x m" using below by blast
    with clear have "m < l" by (meson not_less)
    with m(1) have "m = l - 1" by simp
    with m(2) show ?thesis by (simp add: bit_imp_ge_pow2)
  qed
  show ?thesis using l64 p lt ge by blast
qed

lemma next_power_of_two_least:
  assumes pos: "0 < unat sz" and le: "unat sz \<le> 2 ^ 63"
  shows "\<exists>k. unat (next_power_of_two sz) = 2 ^ k \<and> unat sz \<le> 2 ^ k \<and>
           (\<forall>j. unat sz \<le> 2 ^ j \<longrightarrow> k \<le> j)"
proof -
  have x: "unat (sz - 1) = unat sz - 1" using pos by (simp add: unat_minus_one unat_gt_0)
  from smear_plus_one [of "sz - 1"] obtain l where l: "l \<le> 64"
    "smear (sz - 1) + 1 = 2 ^ l" "unat (sz - 1) < 2 ^ l" "0 < l \<longrightarrow> 2 ^ (l - 1) \<le> unat (sz - 1)"
    by blast
  have l63: "l \<le> 63"
  proof (rule ccontr)
    assume "\<not> l \<le> 63"
    then have "0 < l" "63 \<le> l - 1" by simp_all
    then have "(2::nat) ^ 63 \<le> 2 ^ (l - 1)" by (intro power_increasing) simp_all
    also have "\<dots> \<le> unat (sz - 1)" using l(4) \<open>0 < l\<close> by simp
    finally show False using le pos unfolding x by simp
  qed
  then have u: "unat (next_power_of_two sz) = 2 ^ l"
    by (simp only: next_power_of_two_smear l(2)) (simp add: unat_pow2_64)
  have up: "unat sz \<le> 2 ^ l" using l(3) pos unfolding x by simp
  have least: "l \<le> j" if "unat sz \<le> 2 ^ j" for j
  proof (cases "0 < l")
    case True
    then have "2 ^ (l - 1) \<le> unat (sz - 1)" using l(4) by simp
    then have "(2::nat) ^ (l - 1) < 2 ^ j" using that pos unfolding x by linarith
    then have "l - 1 < j" by simp
    then show ?thesis by simp
  qed simp
  show ?thesis using u up least by blast
qed

section \<open>The claims\<close>

lemma valid_example_rb: "valid example_rb"
  unfolding valid_def example_rb_def by (simp, rule bexI [of _ 2], simp_all)

lemma valid_empty_rb: "valid empty_rb"
  unfolding valid_def empty_rb_def by (simp, rule bexI [of _ 2], simp_all)

lemma replicate_4: "replicate 4 x = [x, x, x, x]"
  by (simp add: eval_nat_numeral)

lemmas fd_defs =
  ringbuffer_write_fd_def ringbuffer_read_fd_def write_fd_iov_def read_fd_iov_def span_iov_def
  gather_def store_def

lemmas transfer_defs =
  ringbuffer_write_memory_def ringbuffer_read_memory_def fill_count_def free_count_def
  copy_out_def copy_in_def memcpy_def word_le_nat_alt word_less_nat_alt

text \<open>
  Claim C5. On a well-formed buffer, a requested amount (the \<^verbatim>\<open>long\<close> the routine
  receives) greater than the capacity makes both ReadInto (\<^verbatim>\<open>ringbuffer_write_memory\<close>)
  and WriteFrom (\<^verbatim>\<open>ringbuffer_read_memory\<close>) fail with \<^verbatim>\<open>ENOMEM\<close>, whatever the two
  offsets are, and leaves the buffer and the caller's memory as they were.
\<close>

theorem capacity_exceeded:
  "valid rb \<Longrightarrow> int (unat (size_rb rb)) < sint amount \<Longrightarrow>
     ringbuffer_write_memory (Some rb) dst amount = (Inl (Error ENOMEM), Some rb, dst) \<and>
     ringbuffer_read_memory (Some rb) src amount = (Inl (Error ENOMEM), Some rb)"
  by (simp add: ringbuffer_write_memory_def ringbuffer_read_memory_def valid_sint_size)

theorem capacity_exceeded_witness:
  "valid example_rb \<and> int (unat (size_rb example_rb)) < sint (5 :: long) \<and>
     ringbuffer_write_memory (Some example_rb) (Some [0, 0, 0, 0, 0]) 5 =
       (Inl (Error ENOMEM), Some example_rb, Some [0, 0, 0, 0, 0]) \<and>
     ringbuffer_read_memory (Some example_rb) (Some [1, 2, 3, 4, 5]) 5 =
       (Inl (Error ENOMEM), Some example_rb)"
proof -
  have v: "valid example_rb" by (rule valid_example_rb)
  have a: "int (unat (size_rb example_rb)) < sint (5 :: long)" by (simp add: example_rb_def)
  show ?thesis using v a capacity_exceeded [OF v a] by simp
qed

text \<open>
  Claim C10. A ReadInto that succeeds leaves the write offset, the capacity and the
  storage as they were; a WriteFrom that succeeds leaves the read offset and the capacity
  as they were. This holds for every buffer and every amount, hence for the well-formed
  buffers and the amounts up to the capacity of the claim.
\<close>

theorem memory_transfer_frame:
  "(ringbuffer_write_memory (Some rb) dst amount = (Inr n, Some rb', dst') \<longrightarrow>
      write_offset rb' = write_offset rb \<and> size_rb rb' = size_rb rb \<and> storage rb' = storage rb) \<and>
   (ringbuffer_read_memory (Some rb) src amount = (Inr m, Some rb'') \<longrightarrow>
      read_offset rb'' = read_offset rb \<and> size_rb rb'' = size_rb rb)"
  by (auto simp: ringbuffer_write_memory_def ringbuffer_read_memory_def Let_def
           split: if_splits option.splits)

lemma example_read_into:
  "ringbuffer_write_memory (Some example_rb) (Some [0, 0, 0]) 3 =
     (Inr 2, Some (example_rb\<lparr>read_offset := 1\<rparr>), Some [13, 10, 0])"
  by (simp add: transfer_defs example_rb_def)

lemma example_write_from:
  "ringbuffer_read_memory (Some example_rb) (Some [1, 2, 3]) 3 =
     (Inr 2, Some (example_rb\<lparr>storage := [10, 1, 2, 13], write_offset := 3\<rparr>))"
  by (simp add: transfer_defs example_rb_def)

theorem memory_transfer_frame_witness:
  "ringbuffer_write_memory (Some example_rb) (Some [0, 0, 0]) 3 =
     (Inr 2, Some (example_rb\<lparr>read_offset := 1\<rparr>), Some [13, 10, 0]) \<and>
   write_offset (example_rb\<lparr>read_offset := 1\<rparr>) = write_offset example_rb \<and>
   size_rb (example_rb\<lparr>read_offset := 1\<rparr>) = size_rb example_rb \<and>
   storage (example_rb\<lparr>read_offset := 1\<rparr>) = storage example_rb \<and>
   ringbuffer_read_memory (Some example_rb) (Some [1, 2, 3]) 3 =
     (Inr 2, Some (example_rb\<lparr>storage := [10, 1, 2, 13], write_offset := 3\<rparr>)) \<and>
   read_offset (example_rb\<lparr>storage := [10, 1, 2, 13], write_offset := 3\<rparr>) = read_offset example_rb \<and>
   size_rb (example_rb\<lparr>storage := [10, 1, 2, 13], write_offset := 3\<rparr>) = size_rb example_rb"
  using example_read_into example_write_from
    memory_transfer_frame [of example_rb "Some [0, 0, 0]" 3 2 "example_rb\<lparr>read_offset := 1\<rparr>"
      "Some [13, 10, 0]" "Some [1, 2, 3]" 2 "example_rb\<lparr>storage := [10, 1, 2, 13], write_offset := 3\<rparr>"]
  by blast

text \<open>
  Claim C1, amended. From an empty well-formed buffer, a WriteFrom of \<open>N\<close> bytes followed by
  a ReadInto of \<open>N\<close> bytes gives back the \<open>N\<close> bytes written, in order, wherever the offsets
  stand (so also across the end of the storage), for every \<open>N\<close> below the capacity. Both
  calls return \<open>N\<close>, and the caller's memory beyond the \<open>N\<close> bytes is untouched.
\<close>

theorem round_trip:
  assumes "valid rb" and "fill_count rb = 0" and "unat amount < unat (size_rb rb)"
    and "unat amount \<le> length src" and "unat amount \<le> length dst"
  shows "fst (ringbuffer_read_memory (Some rb) (Some src) amount) = Inr amount \<and>
         fst (ringbuffer_write_memory
                (snd (ringbuffer_read_memory (Some rb) (Some src) amount)) (Some dst) amount) =
           Inr amount \<and>
         snd (snd (ringbuffer_write_memory
                (snd (ringbuffer_read_memory (Some rb) (Some src) amount)) (Some dst) amount)) =
           Some (take (unat amount) src @ drop (unat amount) dst)"
proof -
  note v = assms(1) and e = assms(2) and a = assms(3) and ls = assms(4) and ld = assms(5)
  let ?S = "unat (size_rb rb)" and ?w = "unat (write_offset rb)"
  have a': "unat amount \<le> ?S" using a by simp
  have fr: "unat (free_count rb) = ?S" using e by (simp add: unat_free_count [OF v])
  have mn: "min (unat amount) (unat (free_count rb)) = unat amount" using a fr by simp
  from read_memory_valid [OF v a', of src] a ls mn
  obtain n st where w: "ringbuffer_read_memory (Some rb) (Some src) amount =
        (Inr n, Some (rb\<lparr>storage := st,
            write_offset := (write_offset rb + n) AND (size_rb rb - 1)\<rparr>))"
    and n: "unat n = unat amount" and lst: "length st = ?S"
    and rot: "rotate ?w st = take (unat n) src @ drop (unat n) (rotate ?w (storage rb))"
    by auto
  have n': "n = amount" using n by (simp only: word_unat_eq_iff)
  let ?rb1 = "rb\<lparr>storage := st, write_offset := (write_offset rb + n) AND (size_rb rb - 1)\<rparr>"
  have v1: "valid ?rb1" using v lst by (rule valid_write_update)
  have f1: "unat (fill_count ?rb1) = unat amount"
    using fill_count_after_write [OF v _ lst, of n] a e n by simp
  have a1: "unat amount \<le> unat (size_rb ?rb1)" using a' by simp
  have m1: "min (unat amount) (unat (fill_count ?rb1)) = unat amount" by (simp add: f1)
  from write_memory_valid [OF v1 a1, of dst] ld m1
  obtain k where r: "ringbuffer_write_memory (Some ?rb1) (Some dst) amount =
        (Inr k, Some (?rb1\<lparr>read_offset := (read_offset ?rb1 + k) AND (size_rb ?rb1 - 1)\<rparr>),
         Some (take (unat k) (rotate (unat (read_offset ?rb1)) (storage ?rb1)) @ drop (unat k) dst))"
    and k: "unat k = unat amount"
    by auto
  have k': "k = amount" using k by (simp only: word_unat_eq_iff)
  have ro: "read_offset rb = write_offset rb" using v e by (rule empty_offsets)
  have "take (unat amount) (rotate (unat (read_offset ?rb1)) (storage ?rb1)) =
      take (unat amount) src"
    using ls by (simp add: ro rot n')
  then show ?thesis using w r by (simp add: n' k')
qed

theorem round_trip_witness:
  "valid empty_rb \<and> fill_count empty_rb = 0 \<and> unat (3 :: long) < unat (size_rb empty_rb) \<and>
   ringbuffer_read_memory (Some empty_rb) (Some [1, 2, 3]) 3 =
     (Inr 3, Some (empty_rb\<lparr>storage := [2, 3, 0, 1], write_offset := 2\<rparr>)) \<and>
   ringbuffer_write_memory (Some (empty_rb\<lparr>storage := [2, 3, 0, 1], write_offset := 2\<rparr>))
       (Some [9, 9, 9, 9]) 3 =
     (Inr 3, Some (empty_rb\<lparr>storage := [2, 3, 0, 1], write_offset := 2, read_offset := 2\<rparr>),
      Some [1, 2, 3, 9])"
proof -
  have v: "valid empty_rb" by (rule valid_empty_rb)
  have e: "fill_count empty_rb = 0" by (simp add: transfer_defs empty_rb_def)
  have a: "unat (3 :: long) < unat (size_rb empty_rb)" by (simp add: empty_rb_def)
  have w: "ringbuffer_read_memory (Some empty_rb) (Some [1, 2, 3]) 3 =
     (Inr 3, Some (empty_rb\<lparr>storage := [2, 3, 0, 1], write_offset := 2\<rparr>))"
    by (simp add: transfer_defs empty_rb_def)
  have r: "ringbuffer_write_memory (Some (empty_rb\<lparr>storage := [2, 3, 0, 1], write_offset := 2\<rparr>))
       (Some [9, 9, 9, 9]) 3 =
     (Inr 3, Some (empty_rb\<lparr>storage := [2, 3, 0, 1], write_offset := 2, read_offset := 2\<rparr>),
      Some [1, 2, 3, 9])"
    by (simp add: transfer_defs empty_rb_def)
  show ?thesis
    using v e a w r round_trip [OF v e a, of "[1, 2, 3]" "[9, 9, 9, 9]"] by simp
qed

text \<open>
  Claim C1 as stated fails at \<open>N\<close> equal to the capacity: the end index of the span is the
  start index again, so WriteFrom copies nothing, leaves the write offset where it was and
  still returns \<open>N\<close>; the buffer counts as empty and the ReadInto returns 0 bytes.
\<close>

theorem round_trip_full_counterexample:
  "valid empty_rb \<and> fill_count empty_rb = 0 \<and> unat (4 :: long) \<le> unat (size_rb empty_rb) \<and>
   ringbuffer_read_memory (Some empty_rb) (Some [1, 2, 3, 4]) 4 = (Inr 4, Some empty_rb) \<and>
   ringbuffer_write_memory (Some empty_rb) (Some [9, 9, 9, 9]) 4 =
     (Inr 0, Some empty_rb, Some [9, 9, 9, 9])"
  using valid_empty_rb by (simp add: transfer_defs empty_rb_def)

text \<open>
  Claim C6. On a well-formed buffer whose free count \<open>k\<close> is below the requested amount
  (itself at most the capacity), WriteFrom returns \<open>k\<close>, stores the first \<open>k\<close> bytes of
  the source from the write offset on, and leaves the unread bytes (the fill count many
  from the read offset on) as they were. The write offset ends on the read offset.
\<close>

theorem write_from_clamped:
  assumes "valid rb" and "unat (free_count rb) < unat amount"
    and "unat amount \<le> unat (size_rb rb)" and "unat amount \<le> length src"
  shows "\<exists>st. ringbuffer_read_memory (Some rb) (Some src) amount =
             (Inr (free_count rb), Some (rb\<lparr>storage := st, write_offset := read_offset rb\<rparr>)) \<and>
           ring_bytes st (unat (write_offset rb)) (unat (free_count rb)) =
             take (unat (free_count rb)) src \<and>
           ring_bytes st (unat (read_offset rb)) (unat (fill_count rb)) =
             ring_bytes (storage rb) (unat (read_offset rb)) (unat (fill_count rb))"
proof -
  note v = assms(1) and k = assms(2) and a = assms(3) and ls = assms(4)
  let ?S = "unat (size_rb rb)" and ?w = "unat (write_offset rb)" and ?r = "unat (read_offset rb)"
  let ?k = "unat (free_count rb)" and ?f = "unat (fill_count rb)"
  have o: "?r < ?S" "?w < ?S" using valid_offsets [OF v] by simp_all
  have fk: "?k = ?S - ?f" by (rule unat_free_count [OF v])
  have fl: "?f < ?S" by (rule fill_count_less [OF v])
  have kS: "?k < ?S" using k a by simp
  have mn: "min (unat amount) ?k = ?k" using k by simp
  from read_memory_valid [OF v a, of src] kS k ls mn
  obtain n st where w: "ringbuffer_read_memory (Some rb) (Some src) amount =
        (Inr n, Some (rb\<lparr>storage := st,
            write_offset := (write_offset rb + n) AND (size_rb rb - 1)\<rparr>))"
    and n: "unat n = ?k" and lst: "length st = ?S"
    and rot: "rotate ?w st = take (unat n) src @ drop (unat n) (rotate ?w (storage rb))"
    by auto
  have n': "n = free_count rb" using n by (simp only: word_unat_eq_iff)
  have len0: "length (storage rb) = ?S" by (rule valid_length [OF v])
  have "unat ((write_offset rb + free_count rb) AND (size_rb rb - 1)) = (?w + ?k) mod ?S"
    using kS by (intro span_end [OF v o(2)]) simp
  also have "\<dots> = ?r"
    unfolding fk unat_fill_count [OF v] using o by (rule free_nat_wraps_to_read)
  finally have wr: "(write_offset rb + free_count rb) AND (size_rb rb - 1) = read_offset rb"
    by (simp only: word_unat_eq_iff)
  have wk: "(?w + ?k) mod ?S = ?r"
    unfolding fk unat_fill_count [OF v] using o by (rule free_nat_wraps_to_read)
  have new: "ring_bytes st ?w ?k = take ?k src"
    using k ls by (simp add: ring_bytes_def rot n)
  have unread: "ring_bytes xs ?r ?f = drop ?k (rotate ?w xs)" if "length xs = ?S" for xs
  proof -
    have "rotate ?r xs = rotate ((?w + ?k) mod length xs) xs" using that by (simp only: wk)
    also have "\<dots> = rotate (?w + ?k) xs" by (simp only: rotate_conv_mod [symmetric])
    also have "\<dots> = drop ?k (rotate ?w xs) @ take ?k (rotate ?w xs)"
      using kS that by (intro rotate_split) simp
    finally show ?thesis using that fk fl by (simp add: ring_bytes_def)
  qed
  have "drop ?k (rotate ?w st) = drop ?k (rotate ?w (storage rb))"
    using k ls by (simp add: rot n)
  then have old: "ring_bytes st ?r ?f = ring_bytes (storage rb) ?r ?f"
    by (simp only: unread [OF lst] unread [OF len0])
  have "ringbuffer_read_memory (Some rb) (Some src) amount =
      (Inr (free_count rb), Some (rb\<lparr>storage := st, write_offset := read_offset rb\<rparr>))"
    using w by (simp add: n' wr)
  with new old show ?thesis by blast
qed

theorem write_from_clamped_witness:
  "valid example_rb \<and> unat (free_count example_rb) < unat (3 :: long) \<and>
   unat (3 :: long) \<le> unat (size_rb example_rb) \<and>
   ringbuffer_read_memory (Some example_rb) (Some [1, 2, 3]) 3 =
     (Inr 2, Some (example_rb\<lparr>storage := [10, 1, 2, 13], write_offset := 3\<rparr>)) \<and>
   ring_bytes [10, 1, 2, 13] 1 2 = [1, 2] \<and>
   ring_bytes [10, 1, 2, 13] 3 2 = ring_bytes (storage example_rb) 3 2"
proof -
  have v: "valid example_rb" by (rule valid_example_rb)
  have fr: "free_count example_rb = 2" by (simp add: transfer_defs example_rb_def)
  have fl: "fill_count example_rb = 2" by (simp add: transfer_defs example_rb_def)
  have k: "unat (free_count example_rb) < unat (3 :: long)" by (simp add: fr)
  have a: "unat (3 :: long) \<le> unat (size_rb example_rb)" by (simp add: example_rb_def)
  have l: "unat (3 :: long) \<le> length [1, 2, 3 :: byte]" by simp
  from write_from_clamped [OF v k a l]
  obtain st where w: "ringbuffer_read_memory (Some example_rb) (Some [1, 2, 3]) 3 =
      (Inr (free_count example_rb),
       Some (example_rb\<lparr>storage := st, write_offset := read_offset example_rb\<rparr>))"
    and n: "ring_bytes st (unat (write_offset example_rb)) (unat (free_count example_rb)) =
      take (unat (free_count example_rb)) [1, 2, 3]"
    and u: "ring_bytes st (unat (read_offset example_rb)) (unat (fill_count example_rb)) =
      ring_bytes (storage example_rb) (unat (read_offset example_rb))
        (unat (fill_count example_rb))"
    by blast
  have "storage (example_rb\<lparr>storage := st, write_offset := read_offset example_rb\<rparr>) =
      storage (example_rb\<lparr>storage := [10, 1, 2, 13], write_offset := 3\<rparr>)"
    using w example_write_from by simp
  then have st: "st = [10, 1, 2, 13]" by simp
  show ?thesis using v k a w n u unfolding st fr fl
    by (simp add: example_rb_def)
qed

text \<open>
  Claim C7. On a well-formed buffer and for an amount up to the capacity, ReadInto with a
  null destination returns the amount clamped to the fill count, moves the read offset on
  by it (modulo the capacity), hands back the null destination, and the fill count of the
  buffer afterwards is the former one less the bytes skipped.
\<close>

theorem read_into_null:
  assumes "valid rb" and "unat amount \<le> unat (size_rb rb)"
  shows "ringbuffer_write_memory (Some rb) None amount =
           (Inr (min amount (fill_count rb)),
            Some (rb\<lparr>read_offset :=
                    (read_offset rb + min amount (fill_count rb)) AND (size_rb rb - 1)\<rparr>),
            None) \<and>
         unat ((read_offset rb + min amount (fill_count rb)) AND (size_rb rb - 1)) =
           (unat (read_offset rb) + min (unat amount) (unat (fill_count rb))) mod unat (size_rb rb) \<and>
         ringbuffer_fill_count
            (Some (rb\<lparr>read_offset :=
                    (read_offset rb + min amount (fill_count rb)) AND (size_rb rb - 1)\<rparr>)) =
           Inr (fill_count rb - min amount (fill_count rb))"
proof -
  note v = assms(1) and a = assms(2)
  let ?n = "min amount (fill_count rb)"
  have big: "\<not> sint amount > sint (size_rb rb)"
    using a by (simp only: sint_amount [OF v a] valid_sint_size [OF v] of_nat_less_iff)
  have 1: "ringbuffer_write_memory (Some rb) None amount =
      (Inr ?n, Some (rb\<lparr>read_offset := (read_offset rb + ?n) AND (size_rb rb - 1)\<rparr>), None)"
    using big by (simp add: ringbuffer_write_memory_def Let_def copy_out_def
        clamp_fill_min [OF v a])
  have nS: "unat ?n \<le> unat (size_rb rb)" using a by (simp add: word_min_unat)
  have 2: "unat ((read_offset rb + ?n) AND (size_rb rb - 1)) =
      (unat (read_offset rb) + min (unat amount) (unat (fill_count rb))) mod unat (size_rb rb)"
    using span_end [OF v _ nS, of "read_offset rb"] valid_offsets [OF v]
    by (simp add: word_min_unat)
  have 3: "fill_count (rb\<lparr>read_offset := (read_offset rb + ?n) AND (size_rb rb - 1)\<rparr>) =
      fill_count rb - ?n"
    by (rule fill_count_advance [OF v]) (simp add: word_min_unat)
  show ?thesis using 1 2 3 by (simp add: ringbuffer_fill_count_def)
qed

theorem read_into_null_witness:
  "valid example_rb \<and> unat (3 :: long) \<le> unat (size_rb example_rb) \<and>
   ringbuffer_write_memory (Some example_rb) None 3 =
     (Inr 2, Some (example_rb\<lparr>read_offset := 1\<rparr>), None) \<and>
   ringbuffer_fill_count (Some example_rb) = Inr 2 \<and>
   ringbuffer_fill_count (Some (example_rb\<lparr>read_offset := 1\<rparr>)) = Inr 0"
proof -
  have v: "valid example_rb" by (rule valid_example_rb)
  have a: "unat (3 :: long) \<le> unat (size_rb example_rb)" by (simp add: example_rb_def)
  have f: "fill_count example_rb = 2" by (simp add: transfer_defs example_rb_def)
  show ?thesis using v a read_into_null [OF v a]
    by (simp add: f ringbuffer_fill_count_def) (simp add: example_rb_def)
qed

text \<open>
  Claim C3, amended. On a well-formed buffer and for an amount up to the capacity, let
  \<open>n\<close> be the amount clamped to the free count. When \<open>n\<close> is below the capacity,
  DrainToDescriptor (\<^verbatim>\<open>ringbuffer_write_fd\<close>) calls \<^verbatim>\<open>writev\<close> once, with the descriptor and
  the bytes of the \<open>n\<close> cells from the read offset on, in the segments of \<open>spec_iov\<close>, whose
  lengths add up to \<open>n\<close>; what it returns and does to the read offset is settled by the
  answer alone. FillFromDescriptor (\<^verbatim>\<open>ringbuffer_read_fd\<close>) does the same with \<^verbatim>\<open>readv\<close>
  for the amount clamped to the fill count, which is always below the capacity, and the
  cells from the write offset on.
\<close>

theorem descriptor_clamps:
  assumes "valid rb" and "unat amount \<le> unat (size_rb rb)"
  shows "(min (unat amount) (unat (free_count rb)) < unat (size_rb rb) \<longrightarrow>
           sum_list (map snd (write_fd_iov rb amount)) = min (unat amount) (unat (free_count rb)) \<and>
           ringbuffer_write_fd writev (Some rb) fd amount =
             (case writev fd
                     (gather (storage rb)
                        (spec_iov (unat (size_rb rb)) (unat (read_offset rb))
                           (min (unat amount) (unat (free_count rb))))) of
                (bytes, e) \<Rightarrow>
                  if bytes \<le> 0 then
                    (if e \<noteq> EAGAIN \<and> e \<noteq> EWOULDBLOCK then (Inl (Error e), Some rb)
                     else (Inr bytes, Some rb))
                  else
                    (Inr bytes,
                     Some (rb\<lparr>read_offset := (read_offset rb + bytes) AND (size_rb rb - 1)\<rparr>)))) \<and>
         sum_list (map snd (read_fd_iov rb amount)) = min (unat amount) (unat (fill_count rb)) \<and>
         ringbuffer_read_fd readv (Some rb) fd amount =
           (case readv fd
                   (map snd
                      (spec_iov (unat (size_rb rb)) (unat (write_offset rb))
                         (min (unat amount) (unat (fill_count rb))))) of
              (bytes, e, received) \<Rightarrow>
                if bytes \<le> 0 then
                  (if e \<noteq> EAGAIN \<and> e \<noteq> EWOULDBLOCK
                   then (Inl (Error e),
                         Some (rb\<lparr>storage := scatter (storage rb)
                                 (spec_iov (unat (size_rb rb)) (unat (write_offset rb))
                                    (min (unat amount) (unat (fill_count rb)))) received\<rparr>))
                   else (Inr bytes,
                         Some (rb\<lparr>storage := scatter (storage rb)
                                 (spec_iov (unat (size_rb rb)) (unat (write_offset rb))
                                    (min (unat amount) (unat (fill_count rb)))) received\<rparr>)))
                else
                  (Inr bytes,
                   Some (rb\<lparr>storage := scatter (storage rb)
                           (spec_iov (unat (size_rb rb)) (unat (write_offset rb))
                              (min (unat amount) (unat (fill_count rb)))) received,
                         write_offset := (write_offset rb + bytes) AND (size_rb rb - 1)\<rparr>)))"
proof -
  note v = assms(1) and a = assms(2)
  let ?S = "unat (size_rb rb)"
  have o: "unat (read_offset rb) < ?S" "unat (write_offset rb) < ?S"
    using valid_offsets [OF v] by simp_all
  have big: "\<not> sint amount > sint (size_rb rb)"
    using a by (simp only: sint_amount [OF v a] valid_sint_size [OF v] of_nat_less_iff)
  let ?k = "if sint amount > sint (free_count rb) then free_count rb else amount"
  let ?f = "if sint amount > sint (fill_count rb) then fill_count rb else amount"
  have k: "unat ?k = min (unat amount) (unat (free_count rb))" using v a by (rule clamp_free)
  have f: "unat ?f = min (unat amount) (unat (fill_count rb))" using v a by (rule clamp_fill)
  have fS: "unat ?f < ?S" using fill_count_less [OF v] by (simp add: f)
  have fill_iov: "read_fd_iov rb amount =
      spec_iov ?S (unat (write_offset rb)) (min (unat amount) (unat (fill_count rb)))"
    using span_iov_spec [OF v o(2) fS] by (simp only: read_fd_iov_def Let_def f)
  have drain_iov: "write_fd_iov rb amount =
      spec_iov ?S (unat (read_offset rb)) (min (unat amount) (unat (free_count rb)))"
    if "min (unat amount) (unat (free_count rb)) < ?S"
  proof -
    have "unat ?k < ?S" using that by (simp only: k)
    from span_iov_spec [OF v o(1) this] show ?thesis
      by (simp only: write_fd_iov_def Let_def k)
  qed
  have 1: "sum_list (map snd (read_fd_iov rb amount)) = min (unat amount) (unat (fill_count rb))"
    using o by (simp only: fill_iov spec_iov_total)
  have 2: "sum_list (map snd (write_fd_iov rb amount)) = min (unat amount) (unat (free_count rb))"
    if "min (unat amount) (unat (free_count rb)) < ?S"
    using o by (simp only: drain_iov [OF that] spec_iov_total)
  show ?thesis using big 1 2 drain_iov
    by (simp add: ringbuffer_write_fd_def ringbuffer_read_fd_def fill_iov Let_def
        split: prod.splits)
qed

theorem descriptor_clamps_witness:
  "valid skewed_rb \<and> unat (4 :: long) \<le> unat (size_rb skewed_rb) \<and>
   free_count skewed_rb = 3 \<and> fill_count skewed_rb = 1 \<and>
   write_fd_iov skewed_rb 4 = [(3, 1), (0, 2)] \<and>
   read_fd_iov skewed_rb 4 = [(0, 1)] \<and>
   ringbuffer_write_fd writev_all (Some skewed_rb) 5 4 =
     (Inr 3, Some (skewed_rb\<lparr>read_offset := 2\<rparr>)) \<and>
   ringbuffer_read_fd readv_sevens (Some skewed_rb) 5 4 =
     (Inr 1, Some (skewed_rb\<lparr>storage := [7, 11, 12, 13], write_offset := 1\<rparr>))"
proof -
  have v: "valid skewed_rb"
    unfolding valid_def skewed_rb_def by (simp, rule bexI [of _ 2], simp_all)
  have a: "unat (4 :: long) \<le> unat (size_rb skewed_rb)" by (simp add: skewed_rb_def)
  have fr: "free_count skewed_rb = 3" by (simp add: transfer_defs skewed_rb_def)
  have fl: "fill_count skewed_rb = 1" by (simp add: transfer_defs skewed_rb_def)
  have w: "write_fd_iov skewed_rb 4 = [(3, 1), (0, 2)]"
    by (simp add: fd_defs transfer_defs skewed_rb_def)
  have r: "read_fd_iov skewed_rb 4 = [(0, 1)]"
    by (simp add: fd_defs transfer_defs skewed_rb_def)
  show ?thesis
    using v a fr fl w r descriptor_clamps [OF v a, of writev_all 5 readv_sevens]
    by (simp add: spec_iov_def gather_def store_def writev_all_def readv_sevens_def
        word_le_nat_alt skewed_rb_def)
qed

text \<open>
  Claim C3 as stated fails when the clamped amount is the capacity: on the empty buffer,
  whose free count is 4, a drain of 4 bytes builds no segment, because the end index of
  the span is its start index, and a \<^verbatim>\<open>writev\<close> that takes all it is handed takes
  nothing.
\<close>

theorem descriptor_clamp_full_counterexample:
  "valid empty_rb \<and> unat (4 :: long) \<le> unat (size_rb empty_rb) \<and>
   free_count empty_rb = 4 \<and>
   write_fd_iov empty_rb 4 = [] \<and>
   ringbuffer_write_fd writev_all (Some empty_rb) 5 4 = (Inr 0, Some empty_rb)"
  using valid_empty_rb
  by (simp add: fd_defs transfer_defs writev_all_def empty_rb_def)

text \<open>
  Claim C9. From a flushed buffer of non-zero capacity on, every run of operations, with
  whatever arguments and whatever answers of the system calls, keeps the capacity and
  leaves both offsets below it. Every update of an offset in the source is followed by
  the mask with the capacity less one, and a masked value is below a non-zero capacity
  (lemma \<open>masked_less\<close>).
\<close>

theorem offsets_stay_in_range:
  assumes "size_rb rb0 \<noteq> 0" and "ringbuffer_flush (Some rb0) c = (Inr (), Some rb)"
  shows "\<exists>rb'. fold step ops (Some rb) = Some rb' \<and> size_rb rb' = size_rb rb0 \<and>
           read_offset rb' < size_rb rb' \<and> write_offset rb' < size_rb rb'"
proof -
  have "size_rb rb = size_rb rb0 \<and> in_range rb"
    using assms by (auto simp: ringbuffer_flush_def in_range_def word_neq_0_conv split: option.splits)
  with run_in_range [of rb ops] show ?thesis by (auto simp: in_range_def)
qed

theorem offsets_stay_in_range_witness:
  "size_rb example_rb \<noteq> 0 \<and>
   ringbuffer_flush (Some example_rb) 0 =
     (Inr (), Some \<lparr>size_rb = 4, read_offset = 0, write_offset = 0, storage = [0, 0, 0, 0]\<rparr>) \<and>
   fold step [WriteFrom (Some [1, 2, 3]) 3, ReadInto None 2,
              DrainToDescriptor (\<lambda>fd iov. (1, EAGAIN)) 5 1, FillCount, FreeCount]
     (Some \<lparr>size_rb = 4, read_offset = 0, write_offset = 0, storage = [0, 0, 0, 0]\<rparr>) =
     Some \<lparr>size_rb = 4, read_offset = 3, write_offset = 3, storage = [1, 2, 3, 0]\<rparr> \<and>
   (3 :: ulong) < 4"
proof -
  have s: "size_rb example_rb \<noteq> 0" by (simp add: example_rb_def)
  have f: "ringbuffer_flush (Some example_rb) 0 =
     (Inr (), Some \<lparr>size_rb = 4, read_offset = 0, write_offset = 0, storage = [0, 0, 0, 0]\<rparr>)"
    by (simp add: ringbuffer_flush_def memset_def example_rb_def replicate_4)
  have r: "fold step [WriteFrom (Some [1, 2, 3]) 3, ReadInto None 2,
              DrainToDescriptor (\<lambda>fd iov. (1, EAGAIN)) 5 1, FillCount, FreeCount]
     (Some \<lparr>size_rb = 4, read_offset = 0, write_offset = 0, storage = [0, 0, 0, 0]\<rparr>) =
     Some \<lparr>size_rb = 4, read_offset = 3, write_offset = 3, storage = [1, 2, 3, 0]\<rparr>"
    by (simp add: transfer_defs fd_defs)
  show ?thesis
    using s f r offsets_stay_in_range [OF s f, of "[WriteFrom (Some [1, 2, 3]) 3, ReadInto None 2,
              DrainToDescriptor (\<lambda>fd iov. (1, EAGAIN)) 5 1, FillCount, FreeCount]"]
    by (simp add: word_less_nat_alt)
qed

text \<open>
  Claim C4 fails on the code. The result of the system call is stored in an
  \<^verbatim>\<open>unsigned long\<close>, so the failure value \<^verbatim>\<open>-1\<close> is not \<^verbatim>\<open><= 0\<close>: the branch that
  looks at \<^verbatim>\<open>errno\<close> is passed over, the offset moves by \<^verbatim>\<open>-1\<close> modulo the capacity
  and the call returns \<^verbatim>\<open>-1\<close>. Here both calls meet a would-block failure on the
  example buffer.
\<close>

theorem would_block_moves_offset:
  "ringbuffer_write_fd (\<lambda>fd iov. (- 1, EAGAIN)) (Some example_rb) 5 1 =
     (Inr (- 1), Some (example_rb\<lparr>read_offset := 2\<rparr>)) \<and>
   ringbuffer_read_fd (\<lambda>fd lens. (- 1, EAGAIN, [])) (Some example_rb) 5 1 =
     (Inr (- 1), Some (example_rb\<lparr>write_offset := 0\<rparr>))"
  by (simp add: transfer_defs fd_defs example_rb_def unsigned_minus_1_eq_mask mask_eq_exp_minus_1)

text \<open>
  Claim C2, amended. With an allocator that grants both blocks, Create(1) gives a buffer
  of capacity 1. Once it is flushed, a WriteFrom of 1 byte returns 1 and leaves both
  offsets at 0; FreeCount then returns 1, and a further WriteFrom of 1 byte returns 1 again.
\<close>

theorem capacity_one_scenario:
  assumes "ctl_ok h" and "mem_ok h 1"
  shows "ringbuffer_create h 1 =
           (Inr (), Some \<lparr>size_rb = 1, read_offset = junk_read h, write_offset = junk_write h,
                           storage = [junk h 0]\<rparr>) \<and>
         ringbuffer_flush
           (Some \<lparr>size_rb = 1, read_offset = junk_read h, write_offset = junk_write h,
                   storage = [junk h 0]\<rparr>) c =
           (Inr (), Some \<lparr>size_rb = 1, read_offset = 0, write_offset = 0, storage = [c]\<rparr>) \<and>
         ringbuffer_read_memory
           (Some \<lparr>size_rb = 1, read_offset = 0, write_offset = 0, storage = [c]\<rparr>) (Some [b]) 1 =
           (Inr 1, Some \<lparr>size_rb = 1, read_offset = 0, write_offset = 0, storage = [c]\<rparr>) \<and>
         ringbuffer_free_count
           (Some \<lparr>size_rb = 1, read_offset = 0, write_offset = 0, storage = [c]\<rparr>) = Inr 1 \<and>
         ringbuffer_read_memory
           (Some \<lparr>size_rb = 1, read_offset = 0, write_offset = 0, storage = [c]\<rparr>) (Some [b']) 1 =
           (Inr 1, Some \<lparr>size_rb = 1, read_offset = 0, write_offset = 0, storage = [c]\<rparr>)"
proof -
  have n: "next_power_of_two 1 = 1" by (simp add: next_power_of_two_def)
  show ?thesis using assms
    by (simp add: ringbuffer_create_def malloc_def n ringbuffer_flush_def memset_def
        ringbuffer_free_count_def transfer_defs)
qed

theorem capacity_one_scenario_witness:
  "ctl_ok zero_heap \<and> mem_ok zero_heap 1 \<and>
   ringbuffer_create zero_heap 1 =
     (Inr (), Some \<lparr>size_rb = 1, read_offset = 0, write_offset = 0, storage = [0]\<rparr>) \<and>
   ringbuffer_flush (Some \<lparr>size_rb = 1, read_offset = 0, write_offset = 0, storage = [0]\<rparr>) 7 =
     (Inr (), Some \<lparr>size_rb = 1, read_offset = 0, write_offset = 0, storage = [7]\<rparr>) \<and>
   ringbuffer_read_memory
     (Some \<lparr>size_rb = 1, read_offset = 0, write_offset = 0, storage = [7]\<rparr>) (Some [65]) 1 =
     (Inr 1, Some \<lparr>size_rb = 1, read_offset = 0, write_offset = 0, storage = [7]\<rparr>) \<and>
   ringbuffer_free_count
     (Some \<lparr>size_rb = 1, read_offset = 0, write_offset = 0, storage = [7]\<rparr>) = Inr 1 \<and>
   ringbuffer_read_memory
     (Some \<lparr>size_rb = 1, read_offset = 0, write_offset = 0, storage = [7]\<rparr>) (Some [66]) 1 =
     (Inr 1, Some \<lparr>size_rb = 1, read_offset = 0, write_offset = 0, storage = [7]\<rparr>)"
proof -
  have c: "ctl_ok zero_heap" and m: "mem_ok zero_heap 1" by (simp_all add: zero_heap_def)
  show ?thesis using c m capacity_one_scenario [OF c m, of 7 65 66]
    by (simp add: zero_heap_def)
qed

text \<open>
  Claim C2 as stated fails: on a buffer of capacity 1 fresh from zeroed memory, after a
  WriteFrom of 1 byte FreeCount returns 1, not 0, and a further WriteFrom returns 1, not 0.
\<close>

theorem capacity_one_counterexample:
  "ringbuffer_create zero_heap 1 =
     (Inr (), Some \<lparr>size_rb = 1, read_offset = 0, write_offset = 0, storage = [0]\<rparr>) \<and>
   ringbuffer_read_memory
     (Some \<lparr>size_rb = 1, read_offset = 0, write_offset = 0, storage = [0]\<rparr>) (Some [65]) 1 =
     (Inr 1, Some \<lparr>size_rb = 1, read_offset = 0, write_offset = 0, storage = [0]\<rparr>) \<and>
   ringbuffer_free_count
     (Some \<lparr>size_rb = 1, read_offset = 0, write_offset = 0, storage = [0]\<rparr>) = Inr 1 \<and>
   ringbuffer_free_count
     (Some \<lparr>size_rb = 1, read_offset = 0, write_offset = 0, storage = [0]\<rparr>) \<noteq> Inr 0 \<and>
   ringbuffer_read_memory
     (Some \<lparr>size_rb = 1, read_offset = 0, write_offset = 0, storage = [0]\<rparr>) (Some [66]) 1 =
     (Inr 1, Some \<lparr>size_rb = 1, read_offset = 0, write_offset = 0, storage = [0]\<rparr>)"
proof -
  have n: "next_power_of_two 1 = 1" by (simp add: next_power_of_two_def)
  show ?thesis
    by (simp add: ringbuffer_create_def malloc_def n zero_heap_def
        ringbuffer_free_count_def transfer_defs)
qed

text \<open>
  Claim C8, amended. For every requested size \<open>s\<close> with \<open>0 < s \<le> 2 ^ 63\<close>, a Create that
  succeeds gives a buffer whose capacity is a power of two, is at least \<open>s\<close>, and is the
  least such power of two; its storage has that many bytes.
\<close>

theorem create_capacity:
  assumes "0 < unat sz" and "unat sz \<le> 2 ^ 63"
    and "ringbuffer_create h sz = (Inr (), Some rb)"
  shows "length (storage rb) = unat (size_rb rb) \<and>
         (\<exists>k. unat (size_rb rb) = 2 ^ k \<and> unat sz \<le> 2 ^ k \<and>
              (\<forall>j. unat sz \<le> 2 ^ j \<longrightarrow> k \<le> j))"
proof -
  have "size_rb rb = next_power_of_two sz \<and> length (storage rb) = unat (size_rb rb)"
    using assms(3)
    by (auto simp: ringbuffer_create_def malloc_def Let_def split: if_splits option.splits)
  then show ?thesis using next_power_of_two_least [OF assms(1,2)] by simp
qed

lemma zero_block_4: "map (\<lambda>i. 0 :: byte) [0..<4] = [0, 0, 0, 0]"
  by (simp add: eval_nat_numeral)

lemma next_power_of_two_3: "next_power_of_two 3 = 4"
  by (simp add: next_power_of_two_def)

theorem create_capacity_witness:
  "0 < unat (3 :: ulong) \<and> unat (3 :: ulong) \<le> 2 ^ 63 \<and>
   ringbuffer_create zero_heap 3 =
     (Inr (), Some \<lparr>size_rb = 4, read_offset = 0, write_offset = 0, storage = [0, 0, 0, 0]\<rparr>) \<and>
   unat (4 :: ulong) = 2 ^ 2 \<and> unat (3 :: ulong) \<le> 2 ^ 2 \<and> \<not> unat (3 :: ulong) \<le> 2 ^ 1"
proof -
  have p: "0 < unat (3 :: ulong)" and b: "unat (3 :: ulong) \<le> 2 ^ 63" by simp_all
  have c: "ringbuffer_create zero_heap 3 =
     (Inr (), Some \<lparr>size_rb = 4, read_offset = 0, write_offset = 0, storage = [0, 0, 0, 0]\<rparr>)"
    by (simp add: ringbuffer_create_def malloc_def zero_heap_def next_power_of_two_3 zero_block_4)
  show ?thesis using p b c create_capacity [OF p b c] by simp
qed

text \<open>
  Claim C8 as stated fails above \<open>2 ^ 63\<close>, where no power of two fits the 64 bits: the
  increment in line 19 wraps to 0, and with an allocator that grants a block of no bytes
  Create succeeds with capacity 0.
\<close>

theorem create_overflow_counterexample:
  "ringbuffer_create zero_heap 9223372036854775809 =
     (Inr (), Some \<lparr>size_rb = 0, read_offset = 0, write_offset = 0, storage = []\<rparr>) \<and>
   unat (9223372036854775809 :: ulong) = 2 ^ 63 + 1"
proof -
  have "next_power_of_two 9223372036854775809 = 0" by (simp add: next_power_of_two_def)
  then show ?thesis by (simp add: ringbuffer_create_def malloc_def zero_heap_def)
qed

end
